theory Spec2Isabelle
  imports Main
begin

section \<open>Scores\<close>

text \<open>
  The search mixes Python integers (centipawns) with the floats \<open>float('-inf')\<close> and
  \<open>float('inf')\<close> that initialise the window. A score is therefore an integer or one
  of the two infinities. Python compares them exactly, \<open>inf + 1\<close> and \<open>inf - 1\<close>
  are \<open>inf\<close> again, and negation swaps the infinities.
\<close>

datatype score = NegInf | Fin int | PosInf

instantiation score :: linorder
begin

fun less_eq_score :: "score \<Rightarrow> score \<Rightarrow> bool" where
  "less_eq_score NegInf _ = True"
| "less_eq_score (Fin a) NegInf = False"
| "less_eq_score (Fin a) (Fin b) = (a \<le> b)"
| "less_eq_score (Fin a) PosInf = True"
| "less_eq_score PosInf PosInf = True"
| "less_eq_score PosInf _ = False"

definition less_score :: "score \<Rightarrow> score \<Rightarrow> bool" where
  "less_score x y = (x \<le> y \<and> \<not> y \<le> x)"

instance
proof
  fix x y z :: score
  show "(x < y) = (x \<le> y \<and> \<not> y \<le> x)" by (simp add: less_score_def)
  show "x \<le> x" by (cases x) simp_all
  show "x \<le> y \<Longrightarrow> y \<le> z \<Longrightarrow> x \<le> z"
    by (cases x; cases y; cases z) simp_all
  show "x \<le> y \<Longrightarrow> y \<le> x \<Longrightarrow> x = y"
    by (cases x; cases y) simp_all
  show "x \<le> y \<or> y \<le> x"
    by (cases x; cases y) auto
qed

end

fun neg :: "score \<Rightarrow> score" where
  "neg NegInf = PosInf"
| "neg (Fin a) = Fin (- a)"
| "neg PosInf = NegInf"

fun plus1 :: "score \<Rightarrow> score" where
  "plus1 (Fin a) = Fin (a + 1)"
| "plus1 x = x"

fun minus1 :: "score \<Rightarrow> score" where
  "minus1 (Fin a) = Fin (a - 1)"
| "minus1 x = x"

fun finite_score :: "score \<Rightarrow> bool" where
  "finite_score (Fin a) = True"
| "finite_score _ = False"

section \<open>Positions, moves and the rules of the game\<close>

text \<open>
  Squares are numbered as the chess library numbers them: a1 = 0, b1 = 1, ..., h8 = 63.
  Its colours are booleans (\<open>WHITE = True\<close>); a datatype names them here.
\<close>

type_synonym square = nat

datatype color = WHITE | BLACK

datatype piece_type = PAWN | KNIGHT | BISHOP | ROOK | QUEEN | KING

datatype piece = Piece (piece_type: piece_type) (color: color)

record move =
  from_square :: square
  to_square :: square
  promotion :: "piece_type option"

text \<open>
  A position is what the library saves on \<open>push\<close> and restores on \<open>pop\<close>: the piece
  placement, the side to move and the castling, en-passant and move-count data.
\<close>

record position =
  piece_map :: "(square \<times> piece) list"
  turn :: color
  castling_rights :: nat
  ep_square :: "square option"
  halfmove_clock :: nat
  fullmove_number :: nat

text \<open>
  The board object is the current position, the stack of positions saved by \<open>push\<close>
  and the moves pushed so far.
\<close>

record board =
  pos :: position
  state_stack :: "position list"
  move_stack :: "move list"

text \<open>
  The rules of chess are not part of the engine: the library supplies them. They are a
  parameter of every definition below. \<open>legal_moves\<close> lists the moves in the order the
  library generates them; \<open>apply_move\<close> is the position \<open>push\<close> leaves.
\<close>

record rules =
  legal_moves :: "position \<Rightarrow> move list"
  apply_move :: "position \<Rightarrow> move \<Rightarrow> position"
  is_capture :: "position \<Rightarrow> move \<Rightarrow> bool"
  is_check :: "position \<Rightarrow> bool"
  is_checkmate :: "position \<Rightarrow> bool"
  is_stalemate :: "position \<Rightarrow> bool"
  is_insufficient_material :: "position \<Rightarrow> bool"

definition SQUARES :: "square list" where
  "SQUARES = [0..<64]"

definition piece_at :: "position \<Rightarrow> square \<Rightarrow> piece option" where
  "piece_at p sq = map_of (piece_map p) sq"

definition pieces :: "position \<Rightarrow> piece_type \<Rightarrow> color \<Rightarrow> square list" where
  "pieces p pt c = filter (\<lambda>sq. piece_at p sq = Some (Piece pt c)) SQUARES"

text \<open>\<open>board.king(color)\<close>: the highest square holding a king of that colour, if any.\<close>

definition king :: "position \<Rightarrow> color \<Rightarrow> square option" where
  "king p c = (case rev (pieces p KING c) of [] \<Rightarrow> None | sq # _ \<Rightarrow> Some sq)"

definition square_file :: "square \<Rightarrow> nat" where
  "square_file sq = sq mod 8"

text \<open>
  \<open>push\<close> saves the current position and makes the move; \<open>pop\<close> restores the position
  saved last, whatever was done to the current one in between. The library raises
  IndexError on \<open>pop\<close> from an empty stack; the engine pops only what it has pushed
  (lemmas \<open>*_stack\<close> below), so that case leaves the board as it is here.
\<close>

definition push :: "rules \<Rightarrow> move \<Rightarrow> board \<Rightarrow> board" where
  "push R m b =
     \<lparr>pos = apply_move R (pos b) m,
      state_stack = pos b # state_stack b,
      move_stack = m # move_stack b\<rparr>"

definition pop :: "board \<Rightarrow> board" where
  "pop b =
     (case state_stack b of
        [] \<Rightarrow> b
      | p # ps \<Rightarrow> \<lparr>pos = p, state_stack = ps, move_stack = tl (move_stack b)\<rparr>)"

section \<open>Static evaluation (static_eval.py)\<close>

definition PIECE_VALUES :: "piece_type \<Rightarrow> int" where
  "PIECE_VALUES pt =
     (case pt of PAWN \<Rightarrow> 100 | KNIGHT \<Rightarrow> 320 | BISHOP \<Rightarrow> 330
               | ROOK \<Rightarrow> 500 | QUEEN \<Rightarrow> 900 | KING \<Rightarrow> 0)"

definition PAWN_TABLE :: "int list" where
  "PAWN_TABLE =
    [ 0,  0,  0,  0,  0,  0,  0,  0,
     50, 50, 50, 50, 50, 50, 50, 50,
     10, 10, 20, 30, 30, 20, 10, 10,
      5,  5, 10, 25, 25, 10,  5,  5,
      0,  0,  0, 20, 20,  0,  0,  0,
      5, -5,-10,  0,  0,-10, -5,  5,
      5, 10, 10,-20,-20, 10, 10,  5,
      0,  0,  0,  0,  0,  0,  0,  0]"

definition KNIGHT_TABLE :: "int list" where
  "KNIGHT_TABLE =
    [-50,-40,-30,-30,-30,-30,-40,-50,
     -40,-20,  0,  0,  0,  0,-20,-40,
     -30,  0, 10, 15, 15, 10,  0,-30,
     -30,  5, 15, 20, 20, 15,  5,-30,
     -30,  0, 15, 20, 20, 15,  0,-30,
     -30,  5, 10, 15, 15, 10,  5,-30,
     -40,-20,  0,  5,  5,  0,-20,-40,
     -50,-40,-30,-30,-30,-30,-40,-50]"

definition BISHOP_TABLE :: "int list" where
  "BISHOP_TABLE =
    [-20,-10,-10,-10,-10,-10,-10,-20,
     -10,  0,  0,  0,  0,  0,  0,-10,
     -10,  0,  5, 10, 10,  5,  0,-10,
     -10,  5,  5, 10, 10,  5,  5,-10,
     -10,  0, 10, 10, 10, 10,  0,-10,
     -10, 10, 10, 10, 10, 10, 10,-10,
     -10,  5,  0,  0,  0,  0,  5,-10,
     -20,-10,-10,-10,-10,-10,-10,-20]"

definition ROOK_TABLE :: "int list" where
  "ROOK_TABLE =
    [ 0,  0,  0,  0,  0,  0,  0,  0,
      5, 10, 10, 10, 10, 10, 10,  5,
     -5,  0,  0,  0,  0,  0,  0, -5,
     -5,  0,  0,  0,  0,  0,  0, -5,
     -5,  0,  0,  0,  0,  0,  0, -5,
     -5,  0,  0,  0,  0,  0,  0, -5,
     -5,  0,  0,  0,  0,  0,  0, -5,
      0,  0,  0,  5,  5,  0,  0,  0]"

definition QUEEN_TABLE :: "int list" where
  "QUEEN_TABLE =
    [-20,-10,-10, -5, -5,-10,-10,-20,
     -10,  0,  0,  0,  0,  0,  0,-10,
     -10,  0,  5,  5,  5,  5,  0,-10,
      -5,  0,  5,  5,  5,  5,  0, -5,
       0,  0,  5,  5,  5,  5,  0, -5,
     -10,  5,  5,  5,  5,  5,  0,-10,
     -10,  0,  5,  0,  0,  0,  0,-10,
     -20,-10,-10, -5, -5,-10,-10,-20]"

definition KING_TABLE_MIDDLE :: "int list" where
  "KING_TABLE_MIDDLE =
    [-30,-40,-40,-50,-50,-40,-40,-30,
     -30,-40,-40,-50,-50,-40,-40,-30,
     -30,-40,-40,-50,-50,-40,-40,-30,
     -30,-40,-40,-50,-50,-40,-40,-30,
     -20,-30,-30,-40,-40,-30,-30,-20,
     -10,-20,-20,-20,-20,-20,-20,-10,
      20, 20,  0,  0,  0,  0, 20, 20,
      20, 30, 10,  0,  0, 10, 30, 20]"

definition KING_TABLE_END :: "int list" where
  "KING_TABLE_END =
    [-50,-40,-30,-20,-20,-30,-40,-50,
     -30,-20,-10,  0,  0,-10,-20,-30,
     -30,-10, 20, 30, 30, 20,-10,-30,
     -30,-10, 30, 40, 40, 30,-10,-30,
     -30,-10, 30, 40, 40, 30,-10,-30,
     -30,-10, 20, 30, 30, 20,-10,-30,
     -30,-30,  0,  0,  0,  0,-30,-30,
     -50,-30,-30,-30,-30,-30,-30,-50]"

definition flip_table :: "int list \<Rightarrow> int list" where
  "flip_table table = map (\<lambda>i. table ! (63 - i)) [0..<64]"

definition is_endgame :: "position \<Rightarrow> bool" where
  "is_endgame p =
     (let queens = length (pieces p QUEEN WHITE) + length (pieces p QUEEN BLACK);
          rooks = length (pieces p ROOK WHITE) + length (pieces p ROOK BLACK)
      in queens = 0 \<and> rooks \<le> 2)"

definition get_piece_square_value :: "piece \<Rightarrow> square \<Rightarrow> bool \<Rightarrow> int" where
  "get_piece_square_value pc sq endgame =
     (let table =
            (case piece_type pc of
               PAWN \<Rightarrow> PAWN_TABLE
             | KNIGHT \<Rightarrow> KNIGHT_TABLE
             | BISHOP \<Rightarrow> BISHOP_TABLE
             | ROOK \<Rightarrow> ROOK_TABLE
             | QUEEN \<Rightarrow> QUEEN_TABLE
             | KING \<Rightarrow> (if endgame then KING_TABLE_END else KING_TABLE_MIDDLE));
          table = (if color pc = BLACK then flip_table table else table)
      in table ! sq)"

definition evaluate_material :: "position \<Rightarrow> int" where
  "evaluate_material p =
     (\<Sum>pt \<leftarrow> [PAWN, KNIGHT, BISHOP, ROOK, QUEEN].
        (int (length (pieces p pt WHITE)) - int (length (pieces p pt BLACK))) * PIECE_VALUES pt)"

definition evaluate_position :: "position \<Rightarrow> bool \<Rightarrow> int" where
  "evaluate_position p endgame =
     (\<Sum>sq \<leftarrow> SQUARES.
        (case piece_at p sq of
           None \<Rightarrow> 0
         | Some pc \<Rightarrow> get_piece_square_value pc sq endgame))"

text \<open>
  The mobility term counts the legal moves of the side to move, sets the side to move to
  Black, counts again, and then sets the side to move to White. It returns the position
  it leaves together with the term.
\<close>

definition evaluate_mobility :: "rules \<Rightarrow> position \<Rightarrow> int \<times> position" where
  "evaluate_mobility R p =
     (let white_moves = int (length (legal_moves R p));
          p1 = p\<lparr>turn := BLACK\<rparr>;
          black_moves = int (length (legal_moves R p1));
          p2 = p1\<lparr>turn := WHITE\<rparr>
      in ((white_moves - black_moves) * 2, p2))"

definition pawns_on_file :: "position \<Rightarrow> color \<Rightarrow> nat \<Rightarrow> nat" where
  "pawns_on_file p c f =
     length (filter (\<lambda>sq. square_file sq = f \<and> piece_at p sq = Some (Piece PAWN c)) SQUARES)"

definition is_isolated :: "position \<Rightarrow> color \<Rightarrow> square \<Rightarrow> bool" where
  "is_isolated p c sq =
     (\<forall>adj \<in> set [int (square_file sq) - 1, int (square_file sq) + 1].
        0 \<le> adj \<and> adj < 8 \<longrightarrow>
        (\<forall>s \<in> set SQUARES. int (square_file s) = adj \<longrightarrow>
           (case piece_at p s of
              None \<Rightarrow> True
            | Some pawn \<Rightarrow> \<not> (piece_type pawn = PAWN \<and> color pawn = c))))"

definition evaluate_pawn_structure :: "position \<Rightarrow> int" where
  "evaluate_pawn_structure p =
     (\<Sum>f \<leftarrow> [0..<8].
        (if pawns_on_file p WHITE f > 1 then - 20 * (int (pawns_on_file p WHITE f) - 1) else 0)
      + (if pawns_on_file p BLACK f > 1 then 20 * (int (pawns_on_file p BLACK f) - 1) else 0))
   + (\<Sum>sq \<leftarrow> SQUARES.
        (case piece_at p sq of
           None \<Rightarrow> 0
         | Some pc \<Rightarrow>
             if piece_type pc = PAWN \<and> is_isolated p (color pc) sq
             then (if color pc = WHITE then - 15 else 15)
             else 0))"

text \<open>
  \<open>if white_king_sq:\<close> tests a square number, so it is false when there is no king and
  also when the king stands on a1 (square 0). \<open>board.is_check()\<close> asks whether the side
  to move is in check; both blocks ask the same question.
\<close>

definition G1 :: square where "G1 = 6"
definition C1 :: square where "C1 = 2"
definition G8 :: square where "G8 = 62"
definition C8 :: square where "C8 = 58"

definition evaluate_king_safety :: "rules \<Rightarrow> position \<Rightarrow> int" where
  "evaluate_king_safety R p =
     (let score = 0;
          score =
            (case king p WHITE of
               None \<Rightarrow> score
             | Some white_king_sq \<Rightarrow>
                 if white_king_sq = 0 then score
                 else
                   (let score = (if white_king_sq \<in> set [G1, C1] then score + 20 else score)
                    in if is_check R p then score - 10 else score));
          score =
            (case king p BLACK of
               None \<Rightarrow> score
             | Some black_king_sq \<Rightarrow>
                 if black_king_sq = 0 then score
                 else
                   (let score = (if black_king_sq \<in> set [G8, C8] then score - 20 else score)
                    in if is_check R p then score + 10 else score))
      in score)"

text \<open>
  \<open>static_eval.evaluate_board\<close>: the score from White's point of view, and the position
  as the call leaves it.
\<close>

definition evaluate_board :: "rules \<Rightarrow> position \<Rightarrow> int \<times> position" where
  "evaluate_board R p =
     (if is_checkmate R p then (if turn p = WHITE then - 99999 else 99999, p)
      else if is_stalemate R p \<or> is_insufficient_material R p then (0, p)
      else
        (let endgame = is_endgame p;
             material_score = evaluate_material p;
             positional_score = evaluate_position p endgame;
             (mobility_score, p') = evaluate_mobility R p;
             pawn_structure_score = evaluate_pawn_structure p';
             king_safety_score = evaluate_king_safety R p'
         in (material_score + positional_score + mobility_score
               + pawn_structure_score + king_safety_score, p')))"

section \<open>The search engine (NV_chess_engine_V2.py)\<close>

text \<open>
  The engine object: the board it was given, the transposition table (declared, cleared,
  never written), the node counter, the two killer slots and the history table keyed by
  (from, to).
\<close>

record engine =
  board :: board
  transposition_table :: "string \<rightharpoonup> int"
  nodes_searched :: nat
  killer_moves :: "move option list"
  history_table :: "(square \<times> square) \<rightharpoonup> int"

definition init_engine :: "board \<Rightarrow> engine" where
  "init_engine b =
     \<lparr>board = b, transposition_table = Map.empty, nodes_searched = 0,
      killer_moves = [None, None], history_table = Map.empty\<rparr>"

text \<open>
  The search is recursive and Python bounds the depth of recursion: a call made when no
  frame is left raises RecursionError. Each search function takes the number \<open>lim\<close> of
  nested calls still allowed and returns either the exception or its value, together
  with the engine as the call leaves it.
\<close>

datatype error = RecursionError

type_synonym 'a result = "(error + 'a) \<times> engine"

definition E4 :: square where "E4 = 28"
definition E5 :: square where "E5 = 36"
definition D4 :: square where "D4 = 27"
definition D5 :: square where "D5 = 35"

definition move_score :: "rules \<Rightarrow> engine \<Rightarrow> move \<Rightarrow> int" where
  "move_score R e m =
     (let p = pos (board e);
          score = 0;
          score =
            (if is_capture R p m then
               (case piece_at p (to_square m) of
                  None \<Rightarrow> score
                | Some captured \<Rightarrow>
                    (let score = score + 10000 + PIECE_VALUES (piece_type captured)
                     in case piece_at p (from_square m) of
                          None \<Rightarrow> score
                        | Some attacker \<Rightarrow> score - PIECE_VALUES (piece_type attacker)))
             else score);
          score = (if promotion m \<noteq> None then score + 8000 else score);
          score = (if Some m \<in> set (killer_moves e) then score + 3000 else score);
          score =
            (case history_table e (from_square m, to_square m) of
               None \<Rightarrow> score
             | Some h \<Rightarrow> score + h div 10);
          score = (if to_square m \<in> set [E4, E5, D4, D5] then score + 10 else score)
      in score)"

text \<open>\<open>sorted(moves, key=move_score, reverse=True)\<close>: a stable sort, highest score first.\<close>

definition order_moves :: "rules \<Rightarrow> engine \<Rightarrow> move list \<Rightarrow> bool \<Rightarrow> move list" where
  "order_moves R e moves is_maximizing = sort_key (\<lambda>m. - move_score R e m) moves"

definition update_killer :: "move \<Rightarrow> engine \<Rightarrow> engine" where
  "update_killer m e =
     (if Some m \<notin> set (killer_moves e) then
        (let k = Some m # killer_moves e
         in e\<lparr>killer_moves := (if length k > 2 then butlast k else k)\<rparr>)
      else e)"

definition update_history :: "move \<Rightarrow> int \<Rightarrow> engine \<Rightarrow> engine" where
  "update_history m depth e =
     (let history_key = (from_square m, to_square m);
          bonus = depth * depth
      in e\<lparr>history_table := (history_table e)
              (history_key \<mapsto> (case history_table e history_key of None \<Rightarrow> 0 | Some h \<Rightarrow> h) + bonus)\<rparr>)"

text \<open>
  The engine's \<open>evaluate_board(player_color)\<close>; every call in the search uses the
  default \<open>player_color = BLACK\<close>.
\<close>

definition engine_evaluate_board :: "rules \<Rightarrow> color \<Rightarrow> engine \<Rightarrow> int \<times> engine" where
  "engine_evaluate_board R player_color e =
     (let (score, p') = evaluate_board R (pos (board e));
          e' = e\<lparr>board := (board e)\<lparr>pos := p'\<rparr>\<rparr>
      in (if player_color = BLACK then - score else score, e'))"

subsection \<open>Quiescence search\<close>

text \<open>
  The loop over the legal moves of \<open>_quiescence\<close>; \<open>rec\<close> is the recursive call.
\<close>

fun q_loop ::
  "rules \<Rightarrow> (score \<Rightarrow> score \<Rightarrow> engine \<Rightarrow> score result) \<Rightarrow> score \<Rightarrow> score \<Rightarrow> move list
     \<Rightarrow> engine \<Rightarrow> score result" where
  "q_loop R rec alpha beta [] e = (Inr alpha, e)"
| "q_loop R rec alpha beta (m # ms) e =
     (let p = pos (board e) in
      if \<not> is_capture R p m then q_loop R rec alpha beta ms e
      else if (case (piece_at p (to_square m), piece_at p (from_square m)) of
                 (Some captured, Some attacker) \<Rightarrow>
                   PIECE_VALUES (piece_type captured) < PIECE_VALUES (piece_type attacker)
               | _ \<Rightarrow> False)
      then q_loop R rec alpha beta ms e
      else
        (case rec (neg beta) (neg alpha) (e\<lparr>board := push R m (board e)\<rparr>) of
           (Inl err, e') \<Rightarrow> (Inl err, e')
         | (Inr v, e') \<Rightarrow>
             (let score = neg v;
                  e'' = e'\<lparr>board := pop (board e')\<rparr>;
                  alpha = max alpha score
              in if alpha \<ge> beta then (Inr beta, e'')
                 else q_loop R rec alpha beta ms e'')))"

primrec quiescence :: "rules \<Rightarrow> nat \<Rightarrow> score \<Rightarrow> score \<Rightarrow> engine \<Rightarrow> score result" where
  "quiescence R 0 alpha beta e = (Inl RecursionError, e)"
| "quiescence R (Suc lim) alpha beta e =
     (let e1 = e\<lparr>nodes_searched := nodes_searched e + 1\<rparr>;
          (v, e2) = engine_evaluate_board R BLACK e1;
          stand_pat = Fin v
      in if stand_pat \<ge> beta then (Inr beta, e2)
         else q_loop R (quiescence R lim) (max alpha stand_pat) beta
                (legal_moves R (pos (board e2))) e2)"

subsection \<open>Minimax with alpha-beta pruning and principal variation search\<close>

text \<open>
  One child of a node: the first move is searched with the full window, every later
  move with the null window \<open>(na, nb)\<close> and again with the full window when the probe
  lands strictly inside \<open>(alpha, beta)\<close>. \<open>rec\<close> is the recursive call one ply down.
\<close>

definition pvs_child ::
  "(bool \<Rightarrow> score \<Rightarrow> score \<Rightarrow> engine \<Rightarrow> score result) \<Rightarrow> bool \<Rightarrow> bool \<Rightarrow> score \<Rightarrow> score
     \<Rightarrow> score \<Rightarrow> score \<Rightarrow> engine \<Rightarrow> score result" where
  "pvs_child rec is_first_move child_max alpha beta na nb e =
     (if is_first_move then rec child_max alpha beta e
      else
        (case rec child_max na nb e of
           (Inl err, e') \<Rightarrow> (Inl err, e')
         | (Inr v, e') \<Rightarrow>
             if alpha < v \<and> v < beta then rec child_max alpha beta e' else (Inr v, e')))"

fun max_loop ::
  "rules \<Rightarrow> (bool \<Rightarrow> score \<Rightarrow> score \<Rightarrow> engine \<Rightarrow> score result) \<Rightarrow> int \<Rightarrow> score \<Rightarrow> score
     \<Rightarrow> score \<Rightarrow> bool \<Rightarrow> move list \<Rightarrow> engine \<Rightarrow> score result" where
  "max_loop R rec depth alpha beta max_eval is_first_move [] e = (Inr max_eval, e)"
| "max_loop R rec depth alpha beta max_eval is_first_move (m # ms) e =
     (case pvs_child rec is_first_move False alpha beta alpha (plus1 alpha)
             (e\<lparr>board := push R m (board e)\<rparr>) of
        (Inl err, e') \<Rightarrow> (Inl err, e')
      | (Inr v, e') \<Rightarrow>
          (let e'' = e'\<lparr>board := pop (board e')\<rparr>;
               max_eval = max max_eval v;
               alpha = max alpha v
           in if beta \<le> alpha
              then (Inr max_eval, update_history m depth (update_killer m e''))
              else max_loop R rec depth alpha beta max_eval False ms e''))"

fun min_loop ::
  "rules \<Rightarrow> (bool \<Rightarrow> score \<Rightarrow> score \<Rightarrow> engine \<Rightarrow> score result) \<Rightarrow> int \<Rightarrow> score \<Rightarrow> score
     \<Rightarrow> score \<Rightarrow> bool \<Rightarrow> move list \<Rightarrow> engine \<Rightarrow> score result" where
  "min_loop R rec depth alpha beta min_eval is_first_move [] e = (Inr min_eval, e)"
| "min_loop R rec depth alpha beta min_eval is_first_move (m # ms) e =
     (case pvs_child rec is_first_move True alpha beta (minus1 beta) beta
             (e\<lparr>board := push R m (board e)\<rparr>) of
        (Inl err, e') \<Rightarrow> (Inl err, e')
      | (Inr v, e') \<Rightarrow>
          (let e'' = e'\<lparr>board := pop (board e')\<rparr>;
               min_eval = min min_eval v;
               beta = min beta v
           in if beta \<le> alpha
              then (Inr min_eval, update_history m depth (update_killer m e''))
              else min_loop R rec depth alpha beta min_eval False ms e''))"

primrec minimax ::
  "rules \<Rightarrow> nat \<Rightarrow> int \<Rightarrow> bool \<Rightarrow> score \<Rightarrow> score \<Rightarrow> engine \<Rightarrow> score result" where
  "minimax R 0 depth is_maximizing_player alpha beta e = (Inl RecursionError, e)"
| "minimax R (Suc lim) depth is_maximizing_player alpha beta e =
     (let e1 = e\<lparr>nodes_searched := nodes_searched e + 1\<rparr>;
          p = pos (board e1)
      in if depth = 0 then quiescence R lim alpha beta e1
         else if is_checkmate R p
         then (Inr (if is_maximizing_player then Fin (- 99999) else Fin 99999), e1)
         else if is_stalemate R p \<or> is_insufficient_material R p then (Inr (Fin 0), e1)
         else
           (let moves = order_moves R e1 (legal_moves R p) is_maximizing_player
            in if moves = [] then
                 (let (v, e2) = engine_evaluate_board R BLACK e1 in (Inr (Fin v), e2))
               else if is_maximizing_player
               then max_loop R (minimax R lim (depth - 1)) depth alpha beta NegInf True moves e1
               else min_loop R (minimax R lim (depth - 1)) depth alpha beta PosInf True moves e1))"

subsection \<open>The root search and the iterative-deepening driver\<close>

text \<open>
  \<open>Move.__bool__\<close>: a move is false exactly when it is the null move.
\<close>

definition move_truthy :: "move \<Rightarrow> bool" where
  "move_truthy m = (from_square m \<noteq> 0 \<or> to_square m \<noteq> 0 \<or> promotion m \<noteq> None)"

fun root_loop_black ::
  "rules \<Rightarrow> nat \<Rightarrow> int \<Rightarrow> score \<Rightarrow> move option \<Rightarrow> move list \<Rightarrow> engine
     \<Rightarrow> (move option \<times> score) result" where
  "root_loop_black R lim depth alpha best_move [] e = (Inr (best_move, alpha), e)"
| "root_loop_black R lim depth alpha best_move (m # ms) e =
     (case minimax R lim (depth - 1) False alpha PosInf (e\<lparr>board := push R m (board e)\<rparr>) of
        (Inl err, e') \<Rightarrow> (Inl err, e')
      | (Inr score, e') \<Rightarrow>
          (let e'' = e'\<lparr>board := pop (board e')\<rparr>
           in if score > alpha then root_loop_black R lim depth score (Some m) ms e''
              else root_loop_black R lim depth alpha best_move ms e''))"

fun root_loop_white ::
  "rules \<Rightarrow> nat \<Rightarrow> int \<Rightarrow> score \<Rightarrow> move option \<Rightarrow> move list \<Rightarrow> engine
     \<Rightarrow> (move option \<times> score) result" where
  "root_loop_white R lim depth beta best_move [] e = (Inr (best_move, beta), e)"
| "root_loop_white R lim depth beta best_move (m # ms) e =
     (case minimax R lim (depth - 1) True NegInf beta (e\<lparr>board := push R m (board e)\<rparr>) of
        (Inl err, e') \<Rightarrow> (Inl err, e')
      | (Inr score, e') \<Rightarrow>
          (let e'' = e'\<lparr>board := pop (board e')\<rparr>
           in if score < beta then root_loop_white R lim depth score (Some m) ms e''
              else root_loop_white R lim depth beta best_move ms e''))"

text \<open>
  The two loops of \<open>_search_move\<close>, with the bound the loop ends on (the score of the
  move it chose).
\<close>

definition search_root ::
  "rules \<Rightarrow> nat \<Rightarrow> int \<Rightarrow> color \<Rightarrow> engine \<Rightarrow> (move option \<times> score) result" where
  "search_root R lim depth player_color e =
     (if player_color = BLACK
      then root_loop_black R lim depth NegInf None
             (order_moves R e (legal_moves R (pos (board e))) True) e
      else root_loop_white R lim depth PosInf None
             (order_moves R e (legal_moves R (pos (board e))) False) e)"

definition final_move :: "rules \<Rightarrow> move option \<Rightarrow> engine \<Rightarrow> move option" where
  "final_move R best_move e =
     (if (case best_move of None \<Rightarrow> False | Some m \<Rightarrow> move_truthy m) then best_move
      else (case legal_moves R (pos (board e)) of [] \<Rightarrow> None | m # _ \<Rightarrow> Some m))"

definition search_move ::
  "rules \<Rightarrow> nat \<Rightarrow> int \<Rightarrow> color \<Rightarrow> engine \<Rightarrow> (move option) result" where
  "search_move R lim depth player_color e =
     (case search_root R lim depth player_color e of
        (Inl err, e') \<Rightarrow> (Inl err, e')
      | (Inr (best_move, score), e') \<Rightarrow> (Inr (final_move R best_move e'), e'))"

text \<open>
  The loop \<open>for current_depth in range(1, depth + 1)\<close> with its \<open>try\<close>: an exception
  ends the loop and the move found so far is kept.
\<close>

fun deepen ::
  "rules \<Rightarrow> nat \<Rightarrow> color \<Rightarrow> int list \<Rightarrow> move option \<Rightarrow> engine \<Rightarrow> move option \<times> engine" where
  "deepen R lim player_color [] best_move e = (best_move, e)"
| "deepen R lim player_color (current_depth # ds) best_move e =
     (case search_move R lim current_depth player_color e of
        (Inl err, e') \<Rightarrow> (best_move, e')
      | (Inr best, e') \<Rightarrow> deepen R lim player_color ds best e')"

definition get_best_move ::
  "rules \<Rightarrow> nat \<Rightarrow> int \<Rightarrow> color \<Rightarrow> bool \<Rightarrow> engine \<Rightarrow> (move option) result" where
  "get_best_move R lim depth player_color iterative_deepening e =
     (let e1 = e\<lparr>transposition_table := Map.empty\<rparr>
      in if iterative_deepening
         then (let (best_move, e2) = deepen R lim player_color [1..depth] None e1
               in (Inr best_move, e2))
         else search_move R lim depth player_color e1)"

section \<open>Full-width minimax, the reference of the pruning law\<close>

text \<open>
  The unpruned search the specification compares the engine with: the same tree (the
  same terminal tests, the same move lists in the same order, the same depth), the
  same evaluation at the leaves (quiescence search, started with the open window), every
  move of every node searched once, and no window handed down. \<open>rec\<close> is the
  recursive call one ply down.
\<close>

fun full_loop ::
  "rules \<Rightarrow> (engine \<Rightarrow> score result) \<Rightarrow> bool \<Rightarrow> score \<Rightarrow> move list \<Rightarrow> engine
     \<Rightarrow> score result" where
  "full_loop R rec is_maximizing_player best [] e = (Inr best, e)"
| "full_loop R rec is_maximizing_player best (m # ms) e =
     (case rec (e\<lparr>board := push R m (board e)\<rparr>) of
        (Inl err, e') \<Rightarrow> (Inl err, e')
      | (Inr v, e') \<Rightarrow>
          full_loop R rec is_maximizing_player
            (if is_maximizing_player then max best v else min best v) ms
            (e'\<lparr>board := pop (board e')\<rparr>))"

primrec full_minimax :: "rules \<Rightarrow> nat \<Rightarrow> int \<Rightarrow> bool \<Rightarrow> engine \<Rightarrow> score result" where
  "full_minimax R 0 depth is_maximizing_player e = (Inl RecursionError, e)"
| "full_minimax R (Suc lim) depth is_maximizing_player e =
     (let e1 = e\<lparr>nodes_searched := nodes_searched e + 1\<rparr>;
          p = pos (board e1)
      in if depth = 0 then quiescence R lim NegInf PosInf e1
         else if is_checkmate R p
         then (Inr (if is_maximizing_player then Fin (- 99999) else Fin 99999), e1)
         else if is_stalemate R p \<or> is_insufficient_material R p then (Inr (Fin 0), e1)
         else
           (let moves = order_moves R e1 (legal_moves R p) is_maximizing_player
            in if moves = [] then
                 (let (v, e2) = engine_evaluate_board R BLACK e1 in (Inr (Fin v), e2))
               else full_loop R (full_minimax R lim (depth - 1) (\<not> is_maximizing_player))
                      is_maximizing_player (if is_maximizing_player then NegInf else PosInf)
                      moves e1))"

text \<open>
  The root of the reference: the moves in the order \<open>_search_move\<close> tries them, the
  first move with the best score chosen, as \<open>_search_move\<close> does.
\<close>

fun full_root_loop ::
  "rules \<Rightarrow> nat \<Rightarrow> int \<Rightarrow> bool \<Rightarrow> score \<Rightarrow> move option \<Rightarrow> move list \<Rightarrow> engine
     \<Rightarrow> (move option \<times> score) result" where
  "full_root_loop R lim depth is_maximizing_player best_score best_move [] e =
     (Inr (best_move, best_score), e)"
| "full_root_loop R lim depth is_maximizing_player best_score best_move (m # ms) e =
     (case full_minimax R lim (depth - 1) (\<not> is_maximizing_player)
             (e\<lparr>board := push R m (board e)\<rparr>) of
        (Inl err, e') \<Rightarrow> (Inl err, e')
      | (Inr score, e') \<Rightarrow>
          (let e'' = e'\<lparr>board := pop (board e')\<rparr>
           in if (if is_maximizing_player then score > best_score else score < best_score)
              then full_root_loop R lim depth is_maximizing_player score (Some m) ms e''
              else full_root_loop R lim depth is_maximizing_player best_score best_move ms e''))"

definition full_search_root ::
  "rules \<Rightarrow> nat \<Rightarrow> int \<Rightarrow> color \<Rightarrow> engine \<Rightarrow> (move option \<times> score) result" where
  "full_search_root R lim depth player_color e =
     full_root_loop R lim depth (player_color = BLACK)
       (if player_color = BLACK then NegInf else PosInf) None
       (order_moves R e (legal_moves R (pos (board e))) (player_color = BLACK)) e"

section \<open>The heuristic tables\<close>

text \<open>A cutoff by move \<open>m\<close> at remaining depth \<open>d\<close> runs the two updates in this order.\<close>

definition cutoff_update :: "engine \<Rightarrow> move \<times> int \<Rightarrow> engine" where
  "cutoff_update e c = update_history (fst c) (snd c) (update_killer (fst c) e)"

definition killer_ok :: "move option list \<Rightarrow> bool" where
  "killer_ok k = (length k \<le> 2 \<and> distinct (filter (\<lambda>x. x \<noteq> None) k))"

definition history_value :: "engine \<Rightarrow> square \<times> square \<Rightarrow> int" where
  "history_value e k = (case history_table e k of None \<Rightarrow> 0 | Some h \<Rightarrow> h)"

definition cutoff_bonus :: "square \<times> square \<Rightarrow> move \<times> int \<Rightarrow> int" where
  "cutoff_bonus k c =
     (if (from_square (fst c), to_square (fst c)) = k then snd c * snd c else 0)"

section \<open>What quiescence search looks at\<close>

text \<open>The stand-pat score of \<open>_quiescence\<close>: the engine's evaluation of the current position.\<close>

definition stand_pat :: "rules \<Rightarrow> engine \<Rightarrow> score" where
  "stand_pat R e = Fin (fst (engine_evaluate_board R BLACK e))"



section \<open>Concrete positions\<close>

definition mv :: "square \<Rightarrow> square \<Rightarrow> move" where
  "mv f t = \<lparr>from_square = f, to_square = t, promotion = None\<rparr>"

definition empty_board :: board where
  "empty_board =
     \<lparr>pos = \<lparr>piece_map = [], turn = WHITE, castling_rights = 0, ep_square = None,
             halfmove_clock = 0, fullmove_number = 1\<rparr>,
      state_stack = [], move_stack = []\<rparr>"

text \<open>
  Concrete rules are given as a table: for each position the search visits (piece
  placement and side to move), the legal moves in the library's generation order,
  whether the side to move is in check, and whether the material is insufficient.
  Checkmate is check with no legal move, stalemate no check and no legal move. No
  position used below has castling rights or an en-passant capture, so \<open>push\<close> moves
  the piece (promoting it if the move says so), removes what stood on the target
  square, passes the turn and updates the clocks, and a move is a capture when an enemy
  piece stands on its target square.
\<close>

fun other :: "color \<Rightarrow> color" where
  "other WHITE = BLACK"
| "other BLACK = WHITE"

definition simple_push :: "position \<Rightarrow> move \<Rightarrow> position" where
  "simple_push p m =
     (case piece_at p (from_square m) of
        None \<Rightarrow> p\<lparr>turn := other (turn p)\<rparr>
      | Some pc \<Rightarrow>
          (let moved = (case promotion m of None \<Rightarrow> pc | Some pt \<Rightarrow> Piece pt (color pc));
               rest = filter (\<lambda>x. fst x \<noteq> from_square m \<and> fst x \<noteq> to_square m) (piece_map p);
               captures = (piece_at p (to_square m) \<noteq> None);
               double_push = (piece_type pc = PAWN
                   \<and> (to_square m = from_square m + 16 \<or> from_square m = to_square m + 16))
           in p\<lparr>piece_map := insort_key fst (to_square m, moved) rest,
                turn := other (turn p),
                ep_square := (if double_push then Some ((from_square m + to_square m) div 2)
                              else None),
                halfmove_clock := (if piece_type pc = PAWN \<or> captures then 0
                                   else halfmove_clock p + 1),
                fullmove_number := (if turn p = BLACK then fullmove_number p + 1
                                    else fullmove_number p)\<rparr>))"

type_synonym rule_table = "(((square \<times> piece) list \<times> color) \<times> (move list \<times> bool \<times> bool)) list"

definition table_entry :: "rule_table \<Rightarrow> position \<Rightarrow> move list \<times> bool \<times> bool" where
  "table_entry T p =
     (case map_of T (piece_map p, turn p) of None \<Rightarrow> ([], False, False) | Some x \<Rightarrow> x)"

definition table_rules :: "rule_table \<Rightarrow> rules" where
  "table_rules T =
     \<lparr>legal_moves = (\<lambda>p. fst (table_entry T p)),
      apply_move = simple_push,
      is_capture = (\<lambda>p m. case piece_at p (to_square m) of
                              None \<Rightarrow> False | Some pc \<Rightarrow> color pc \<noteq> turn p),
      is_check = (\<lambda>p. fst (snd (table_entry T p))),
      is_checkmate = (\<lambda>p. fst (snd (table_entry T p)) \<and> fst (table_entry T p) = []),
      is_stalemate = (\<lambda>p. \<not> fst (snd (table_entry T p)) \<and> fst (table_entry T p) = []),
      is_insufficient_material = (\<lambda>p. snd (snd (table_entry T p)))\<rparr>"

definition start_board :: "(square \<times> piece) list \<Rightarrow> color \<Rightarrow> board" where
  "start_board pm c =
     \<lparr>pos = \<lparr>piece_map = pm, turn = c, castling_rights = 0, ep_square = None,
             halfmove_clock = 0, fullmove_number = 1\<rparr>,
      state_stack = [], move_stack = []\<rparr>"

text \<open>
  King against king, Black to move: White Ka1, Black Kh8 (FEN \<open>7k/8/8/8/8/8/8/K7 b\<close>),
  and the positions after each of Black's three moves.
\<close>

definition kk_table :: rule_table where
  "kk_table =
    [(([(0, Piece KING WHITE), (63, Piece KING BLACK)], BLACK),
      ([mv 63 62, mv 63 55, mv 63 54], False, True)),
     (([(0, Piece KING WHITE), (62, Piece KING BLACK)], WHITE),
      ([mv 0 9, mv 0 8, mv 0 1], False, True)),
     (([(0, Piece KING WHITE), (55, Piece KING BLACK)], WHITE),
      ([mv 0 9, mv 0 8, mv 0 1], False, True)),
     (([(0, Piece KING WHITE), (54, Piece KING BLACK)], WHITE),
      ([mv 0 9, mv 0 8, mv 0 1], False, True))]"

definition kk_board :: board where
  "kk_board = start_board [(0, Piece KING WHITE), (63, Piece KING BLACK)] BLACK"

text \<open>
  King and pawn against king, Black to move: White Ke1, Pe2, Black Ke8
  (FEN \<open>4k3/8/8/8/8/8/4P3/4K3 b\<close>).
\<close>

definition kpk_table :: rule_table where
  "kpk_table =
   [(([(4, Piece KING WHITE), (12, Piece PAWN WHITE), (60, Piece KING BLACK)], BLACK),
      ([mv 60 61, mv 60 59, mv 60 53, mv 60 52, mv 60 51], False, False))]"

definition kpk_board :: board where
  "kpk_board =
     start_board [(4, Piece KING WHITE), (12, Piece PAWN WHITE), (60, Piece KING BLACK)] BLACK"

text \<open>
  White to move and in check: White Ke1, Black Re8, Kh8 (FEN \<open>4r2k/8/8/8/8/8/8/4K3 w\<close>).
\<close>

definition check_table :: rule_table where
  "check_table =
   [(([(4, Piece KING WHITE), (60, Piece ROOK BLACK), (63, Piece KING BLACK)], WHITE),
      ([mv 4 13, mv 4 11, mv 4 5, mv 4 3], True, False))]"

definition check_board :: board where
  "check_board =
     start_board [(4, Piece KING WHITE), (60, Piece ROOK BLACK), (63, Piece KING BLACK)] WHITE"

definition pr :: "square \<Rightarrow> square \<Rightarrow> piece_type \<Rightarrow> move" where
  "pr f t pt = \<lparr>from_square = f, to_square = t, promotion = Some pt\<rparr>"

text \<open>
  Black to move with a mate in one: White Kh8, Ng8, Ph7, Pf6, Black Kf8, Nh6
  (FEN \<open>5kNK/7P/5P1n/8/8/8/8/8 b\<close>). Nf7 is mate. The table holds every position a
  depth-1 search from here visits, for the side to move the search gives it.
\<close>

definition mate_table :: rule_table where
  "mate_table =
   [(([(45, Piece PAWN WHITE), (47, Piece KNIGHT BLACK), (55, Piece PAWN WHITE), (61, Piece
      KING BLACK), (62, Piece KNIGHT WHITE), (63, Piece KING WHITE)], BLACK),
      ([mv 61 60, mv 61 53, mv 47 62, mv 47 53, mv 47 37, mv 47 30], False, False)),
    (([(45, Piece PAWN WHITE), (55, Piece PAWN WHITE), (61, Piece KING BLACK), (62, Piece
       KNIGHT BLACK), (63, Piece KING WHITE)], WHITE),
      ([pr 55 62 QUEEN, pr 55 62 ROOK, pr 55 62 BISHOP, pr 55 62 KNIGHT, mv 45 53], False,
         False)),
    (([(45, Piece PAWN WHITE), (55, Piece PAWN WHITE), (61, Piece KING BLACK), (62, Piece
       KNIGHT BLACK), (63, Piece KING WHITE)], BLACK),
      ([mv 62 52, mv 62 47, mv 62 45, mv 61 60, mv 61 53], False, False)),
    (([(45, Piece PAWN WHITE), (61, Piece KING BLACK), (62, Piece QUEEN WHITE), (63, Piece
       KING WHITE)], BLACK),
      ([], True, False)),
    (([(45, Piece PAWN WHITE), (61, Piece KING BLACK), (62, Piece ROOK WHITE), (63, Piece
       KING WHITE)], BLACK),
      ([mv 61 53], True, False)),
    (([(45, Piece PAWN WHITE), (61, Piece KING BLACK), (62, Piece ROOK WHITE), (63, Piece
       KING WHITE)], WHITE),
      ([mv 63 55, mv 62 61, mv 62 54, mv 62 46, mv 62 38, mv 62 30, mv 62 22, mv 62 14, mv
         62 6, mv 45 53], False, False)),
    (([(45, Piece PAWN WHITE), (61, Piece KING BLACK), (62, Piece BISHOP WHITE), (63, Piece
       KING WHITE)], BLACK),
      ([mv 61 60], False, False)),
    (([(45, Piece PAWN WHITE), (61, Piece KING BLACK), (62, Piece BISHOP WHITE), (63, Piece
       KING WHITE)], WHITE),
      ([mv 63 55, mv 62 55, mv 62 53, mv 62 44, mv 62 35, mv 62 26, mv 62 17, mv 62 8, mv 45
         53], False, False)),
    (([(45, Piece PAWN WHITE), (61, Piece KING BLACK), (62, Piece KNIGHT WHITE), (63, Piece
       KING WHITE)], BLACK),
      ([mv 61 60, mv 61 53], False, False)),
    (([(45, Piece PAWN WHITE), (61, Piece KING BLACK), (62, Piece KNIGHT WHITE), (63, Piece
       KING WHITE)], WHITE),
      ([mv 63 55, mv 62 52, mv 62 47, mv 45 53], False, False)),
    (([(45, Piece PAWN WHITE), (47, Piece KNIGHT BLACK), (55, Piece PAWN WHITE), (60, Piece
       KING BLACK), (62, Piece KNIGHT WHITE), (63, Piece KING WHITE)], WHITE),
      ([mv 63 54, mv 62 52, mv 62 47, mv 45 53], False, False)),
    (([(45, Piece PAWN WHITE), (47, Piece KNIGHT BLACK), (55, Piece PAWN WHITE), (60, Piece
       KING BLACK), (62, Piece KNIGHT WHITE), (63, Piece KING WHITE)], BLACK),
      ([mv 60 61, mv 60 59, mv 60 53, mv 60 51, mv 47 62, mv 47 53, mv 47 37, mv 47 30],
         False, False)),
    (([(45, Piece PAWN WHITE), (47, Piece KNIGHT WHITE), (55, Piece PAWN WHITE), (60, Piece
       KING BLACK), (63, Piece KING WHITE)], BLACK),
      ([mv 60 61, mv 60 59, mv 60 51], False, False)),
    (([(45, Piece PAWN WHITE), (47, Piece KNIGHT WHITE), (55, Piece PAWN WHITE), (60, Piece
       KING BLACK), (63, Piece KING WHITE)], WHITE),
      ([mv 63 62, mv 63 54, mv 47 62, mv 47 53, mv 47 37, mv 47 30, mv 45 53], False, False)),
    (([(45, Piece PAWN WHITE), (47, Piece KNIGHT BLACK), (53, Piece KING BLACK), (55, Piece
       PAWN WHITE), (62, Piece KNIGHT WHITE), (63, Piece KING WHITE)], WHITE),
      ([mv 62 52, mv 62 47], False, False)),
    (([(45, Piece PAWN WHITE), (47, Piece KNIGHT BLACK), (53, Piece KING BLACK), (55, Piece
       PAWN WHITE), (62, Piece KNIGHT WHITE), (63, Piece KING WHITE)], BLACK),
      ([mv 53 61, mv 53 60, mv 53 46, mv 53 44, mv 47 62, mv 47 37, mv 47 30], False, False)),
    (([(45, Piece PAWN WHITE), (47, Piece KNIGHT WHITE), (53, Piece KING BLACK), (55, Piece
       PAWN WHITE), (63, Piece KING WHITE)], BLACK),
      ([mv 53 61, mv 53 60, mv 53 46, mv 53 45, mv 53 44], True, False)),
    (([(45, Piece PAWN WHITE), (47, Piece KNIGHT WHITE), (53, Piece KING BLACK), (55, Piece
       PAWN WHITE), (63, Piece KING WHITE)], WHITE),
      ([mv 47 62, mv 47 53, mv 47 37, mv 47 30], False, False)),
    (([(45, Piece PAWN WHITE), (53, Piece KNIGHT BLACK), (55, Piece PAWN WHITE), (61, Piece
       KING BLACK), (62, Piece KNIGHT WHITE), (63, Piece KING WHITE)], WHITE),
      ([], True, False)),
    (([(37, Piece KNIGHT BLACK), (45, Piece PAWN WHITE), (55, Piece PAWN WHITE), (61, Piece
       KING BLACK), (62, Piece KNIGHT WHITE), (63, Piece KING WHITE)], WHITE),
      ([mv 62 52, mv 62 47, mv 45 53], False, False)),
    (([(37, Piece KNIGHT BLACK), (45, Piece PAWN WHITE), (55, Piece PAWN WHITE), (61, Piece
       KING BLACK), (62, Piece KNIGHT WHITE), (63, Piece KING WHITE)], BLACK),
      ([mv 61 60, mv 61 53, mv 37 54, mv 37 52, mv 37 47, mv 37 43, mv 37 31, mv 37 27, mv
         37 22, mv 37 20], False, False)),
    (([(30, Piece KNIGHT BLACK), (45, Piece PAWN WHITE), (55, Piece PAWN WHITE), (61, Piece
       KING BLACK), (62, Piece KNIGHT WHITE), (63, Piece KING WHITE)], WHITE),
      ([mv 62 52, mv 62 47, mv 45 53], False, False)),
    (([(30, Piece KNIGHT BLACK), (45, Piece PAWN WHITE), (55, Piece PAWN WHITE), (61, Piece
       KING BLACK), (62, Piece KNIGHT WHITE), (63, Piece KING WHITE)], BLACK),
      ([mv 61 60, mv 61 53, mv 30 47, mv 30 45, mv 30 36, mv 30 20, mv 30 15, mv 30 13],
         False, False))]"

definition mate_board :: board where
  "mate_board =
     start_board [(45, Piece PAWN WHITE), (47, Piece KNIGHT BLACK), (55, Piece PAWN WHITE),
                  (61, Piece KING BLACK), (62, Piece KNIGHT WHITE), (63, Piece KING WHITE)] BLACK"

text \<open>
  White to move with one legal move: White Kh1, Black Kf3, Rg8
  (FEN \<open>6r1/8/8/8/8/5k2/8/7K w\<close>), and the position after Kh2 for either side to move.
\<close>

definition krk_table :: rule_table where
  "krk_table =
   [(([(7, Piece KING WHITE), (21, Piece KING BLACK), (62, Piece ROOK BLACK)], WHITE),
      ([mv 7 15], False, False)),
    (([(15, Piece KING WHITE), (21, Piece KING BLACK), (62, Piece ROOK BLACK)], BLACK),
      ([mv 62 63, mv 62 61, mv 62 60, mv 62 59, mv 62 58, mv 62 57, mv 62 56, mv 62 54,
        mv 62 46, mv 62 38, mv 62 30, mv 62 22, mv 62 14, mv 62 6, mv 21 30, mv 21 29,
        mv 21 28, mv 21 20, mv 21 13, mv 21 12], False, False)),
    (([(15, Piece KING WHITE), (21, Piece KING BLACK), (62, Piece ROOK BLACK)], WHITE),
      ([mv 15 23, mv 15 7], False, False))]"

definition krk_board :: board where
  "krk_board =
     start_board [(7, Piece KING WHITE), (21, Piece KING BLACK), (62, Piece ROOK BLACK)] WHITE"

text \<open>
  White to move, able to capture: White Kg1, Black Kg8, Nh2
  (FEN \<open>6k1/8/8/8/8/8/7n/6K1 w\<close>), and the position after Kxh2. Both have
  insufficient material.
\<close>

definition capture_table :: rule_table where
  "capture_table =
   [(([(6, Piece KING WHITE), (15, Piece KNIGHT BLACK), (62, Piece KING BLACK)], WHITE),
      ([mv 6 15, mv 6 14, mv 6 13, mv 6 7], False, True)),
    (([(15, Piece KING WHITE), (62, Piece KING BLACK)], BLACK),
      ([mv 62 63, mv 62 61, mv 62 55, mv 62 54, mv 62 53], False, True))]"

definition capture_board :: board where
  "capture_board =
     start_board [(6, Piece KING WHITE), (15, Piece KNIGHT BLACK), (62, Piece KING BLACK)] WHITE"

text \<open>
  King and pawn against king and pawn, Black to move: White Kh6, Pd3, Black Kh8, Pd5
  (FEN \<open>7k/8/7K/3p4/8/3P4/8/8 b\<close>), with the positions two plies on and, for each of
  them, the same position with White to move.
\<close>

definition kpkp_table :: rule_table where
  "kpkp_table =
   [(([(19, Piece PAWN WHITE), (35, Piece PAWN BLACK), (47, Piece KING WHITE), (63, Piece
      KING BLACK)], BLACK),
      ([mv 63 62, mv 35 27], False, False)),
    (([(19, Piece PAWN WHITE), (27, Piece PAWN BLACK), (47, Piece KING WHITE), (63, Piece
       KING BLACK)], WHITE),
      ([mv 47 46, mv 47 39, mv 47 38], False, False)),
    (([(19, Piece PAWN WHITE), (27, Piece PAWN BLACK), (46, Piece KING WHITE), (63, Piece
       KING BLACK)], BLACK),
      ([mv 63 62], False, False)),
    (([(19, Piece PAWN WHITE), (27, Piece PAWN BLACK), (46, Piece KING WHITE), (63, Piece
       KING BLACK)], WHITE),
      ([mv 46 53, mv 46 47, mv 46 45, mv 46 39, mv 46 38, mv 46 37], False, False)),
    (([(19, Piece PAWN WHITE), (27, Piece PAWN BLACK), (39, Piece KING WHITE), (63, Piece
       KING BLACK)], BLACK),
      ([mv 63 62, mv 63 55, mv 63 54], False, False)),
    (([(19, Piece PAWN WHITE), (27, Piece PAWN BLACK), (39, Piece KING WHITE), (63, Piece
       KING BLACK)], WHITE),
      ([mv 39 47, mv 39 46, mv 39 38, mv 39 31, mv 39 30], False, False)),
    (([(19, Piece PAWN WHITE), (27, Piece PAWN BLACK), (38, Piece KING WHITE), (63, Piece
       KING BLACK)], BLACK),
      ([mv 63 62, mv 63 55, mv 63 54], False, False)),
    (([(19, Piece PAWN WHITE), (27, Piece PAWN BLACK), (38, Piece KING WHITE), (63, Piece
       KING BLACK)], WHITE),
      ([mv 38 47, mv 38 46, mv 38 45, mv 38 39, mv 38 37, mv 38 31, mv 38 30, mv 38 29],
         False, False)),
    (([(19, Piece PAWN WHITE), (35, Piece PAWN BLACK), (47, Piece KING WHITE), (62, Piece
       KING BLACK)], WHITE),
      ([mv 47 46, mv 47 39, mv 47 38, mv 19 27], False, False)),
    (([(27, Piece PAWN WHITE), (35, Piece PAWN BLACK), (47, Piece KING WHITE), (62, Piece
       KING BLACK)], BLACK),
      ([mv 62 63, mv 62 61, mv 62 53], False, False)),
    (([(27, Piece PAWN WHITE), (35, Piece PAWN BLACK), (47, Piece KING WHITE), (62, Piece
       KING BLACK)], WHITE),
      ([mv 47 46, mv 47 39, mv 47 38], False, False)),
    (([(19, Piece PAWN WHITE), (35, Piece PAWN BLACK), (46, Piece KING WHITE), (62, Piece
       KING BLACK)], BLACK),
      ([mv 62 63, mv 62 61, mv 35 27], False, False)),
    (([(19, Piece PAWN WHITE), (35, Piece PAWN BLACK), (46, Piece KING WHITE), (62, Piece
       KING BLACK)], WHITE),
      ([mv 46 47, mv 46 45, mv 46 39, mv 46 38, mv 46 37, mv 19 27], False, False)),
    (([(19, Piece PAWN WHITE), (35, Piece PAWN BLACK), (39, Piece KING WHITE), (62, Piece
       KING BLACK)], BLACK),
      ([mv 62 63, mv 62 61, mv 62 55, mv 62 54, mv 62 53, mv 35 27], False, False)),
    (([(19, Piece PAWN WHITE), (35, Piece PAWN BLACK), (39, Piece KING WHITE), (62, Piece
       KING BLACK)], WHITE),
      ([mv 39 47, mv 39 46, mv 39 38, mv 39 31, mv 39 30, mv 19 27], False, False)),
    (([(19, Piece PAWN WHITE), (35, Piece PAWN BLACK), (38, Piece KING WHITE), (62, Piece
       KING BLACK)], BLACK),
      ([mv 62 63, mv 62 61, mv 62 55, mv 62 54, mv 62 53, mv 35 27], False, False)),
    (([(19, Piece PAWN WHITE), (35, Piece PAWN BLACK), (38, Piece KING WHITE), (62, Piece
       KING BLACK)], WHITE),
      ([mv 38 47, mv 38 46, mv 38 45, mv 38 39, mv 38 37, mv 38 31, mv 38 30, mv 38 29, mv
         19 27], False, False))]"

definition kpkp_board :: board where
  "kpkp_board =
     start_board [(19, Piece PAWN WHITE), (35, Piece PAWN BLACK), (47, Piece KING WHITE),
       (63, Piece KING BLACK)] BLACK"

section \<open>Notions the theorems use\<close>

text \<open>The number of occupied squares.\<close>

definition piece_count :: "position \<Rightarrow> nat" where
  "piece_count p = length (filter (\<lambda>sq. piece_at p sq \<noteq> None) SQUARES)"

text \<open>Every iteration of the deepening loop over the depths \<open>ds\<close> returns without raising.\<close>

fun all_complete :: "rules \<Rightarrow> nat \<Rightarrow> color \<Rightarrow> int list \<Rightarrow> engine \<Rightarrow> bool" where
  "all_complete R lim player_color [] e = True"
| "all_complete R lim player_color (d # ds) e =
     (case search_move R lim d player_color e of
        (Inl err, e') \<Rightarrow> False
      | (Inr best, e') \<Rightarrow> all_complete R lim player_color ds e')"

text \<open>A top-level request in which no search raises.\<close>

definition request_completes :: "rules \<Rightarrow> nat \<Rightarrow> int \<Rightarrow> color \<Rightarrow> bool \<Rightarrow> engine \<Rightarrow> bool" where
  "request_completes R lim depth player_color iterative_deepening e =
     (if iterative_deepening
      then all_complete R lim player_color [1..depth] (e\<lparr>transposition_table := Map.empty\<rparr>)
      else (case fst (search_move R lim depth player_color
                        (e\<lparr>transposition_table := Map.empty\<rparr>)) of
              Inl err \<Rightarrow> False | Inr best \<Rightarrow> True))"

text \<open>
  What a search may do to the engine besides its board: count nodes, and run cutoff
  updates on the killer table and the history table it was handed (so history entries
  only rise and the killer table stays within its bounds).
\<close>

definition grows :: "engine \<Rightarrow> engine \<Rightarrow> bool" where
  "grows e e' =
     (nodes_searched e \<le> nodes_searched e'
      \<and> (\<forall>k. history_value e k \<le> history_value e' k)
      \<and> transposition_table e' = transposition_table e
      \<and> (killer_ok (killer_moves e) \<longrightarrow> killer_ok (killer_moves e'))
      \<and> (\<exists>cs. killer_moves e' = killer_moves (foldl cutoff_update e cs)
              \<and> history_table e' = history_table (foldl cutoff_update e cs)))"

text \<open>A call that returns a value leaves both stacks of the board as it found them.\<close>

definition framed :: "engine \<Rightarrow> (error + 'a) \<times> engine \<Rightarrow> bool" where
  "framed e x =
     (grows e (snd x)
      \<and> (\<forall>v. fst x = Inr v \<longrightarrow>
            state_stack (board (snd x)) = state_stack (board e)
            \<and> move_stack (board (snd x)) = move_stack (board e)))"

text \<open>A root search that returns a move leaves the board as it found it.\<close>

definition kept :: "engine \<Rightarrow> (error + 'a) \<times> engine \<Rightarrow> bool" where
  "kept e x = (grows e (snd x) \<and> (\<forall>v. fst x = Inr v \<longrightarrow> board (snd x) = board e))"

text \<open>An engine that has searched before: seven nodes counted, h8g7 in the first killer slot.\<close>

definition used_engine :: "board \<Rightarrow> engine" where
  "used_engine b = (init_engine b)\<lparr>nodes_searched := 7, killer_moves := [Some (mv 63 54), None]\<rparr>"

section \<open>The heuristic tables under cutoff updates\<close>

lemma len2_cases:
  "length (k::'a list) \<le> 2 \<Longrightarrow> k = [] \<or> (\<exists>a. k = [a]) \<or> (\<exists>a b. k = [a, b])"
  by (cases k; simp; cases "tl k"; auto)

lemma update_killer_ok:
  assumes "killer_ok (killer_moves e)"
  shows "killer_ok (killer_moves (update_killer m e))"
proof -
  from assms have "length (killer_moves e) \<le> 2" by (simp add: killer_ok_def)
  then consider "killer_moves e = []" | a where "killer_moves e = [a]"
    | a b where "killer_moves e = [a, b]"
    using len2_cases by blast
  then show ?thesis
    using assms by cases (auto simp: update_killer_def killer_ok_def Let_def)
qed

lemma update_killer_new:
  "Some m \<notin> set (killer_moves e) \<Longrightarrow> hd (killer_moves (update_killer m e)) = Some m"
  by (cases "killer_moves e") (auto simp: update_killer_def Let_def)

lemma update_killer_old: "Some m \<in> set (killer_moves e) \<Longrightarrow> update_killer m e = e"
  by (simp add: update_killer_def)

lemma update_killer_history [simp]: "history_table (update_killer m e) = history_table e"
  by (simp add: update_killer_def Let_def)

lemma update_history_killer [simp]: "killer_moves (update_history m d e) = killer_moves e"
  by (simp add: update_history_def Let_def)

lemma cutoff_update_history:
  "history_value (cutoff_update e c) k = history_value e k + cutoff_bonus k c"
  by (auto simp: cutoff_update_def update_history_def history_value_def cutoff_bonus_def Let_def
      split: option.splits)

lemma cutoff_update_killer:
  "killer_moves (cutoff_update e (m, d)) = killer_moves (update_killer m e)"
  by (simp add: cutoff_update_def)

lemma cutoffs_killer_ok:
  "killer_ok (killer_moves e) \<Longrightarrow> killer_ok (killer_moves (foldl cutoff_update e cs))"
  by (induction cs arbitrary: e) (simp_all add: cutoff_update_def update_killer_ok)

lemma cutoffs_history:
  "history_value (foldl cutoff_update e cs) k
     = history_value e k + (\<Sum>c \<leftarrow> cs. cutoff_bonus k c)"
  by (induction cs arbitrary: e) (simp_all add: cutoff_update_history)

lemma cutoffs_history_mono:
  "history_value e k \<le> history_value (foldl cutoff_update e cs) k"
proof -
  have "0 \<le> (\<Sum>c \<leftarrow> cs. cutoff_bonus k c)"
    by (rule sum_list_nonneg) (auto simp: cutoff_bonus_def)
  then show ?thesis by (simp add: cutoffs_history)
qed

text \<open>
  C8, as the code has it. Starting from a killer table with at most two entries and no
  move twice (the initial table is one), any sequence \<open>cs\<close> of cutoffs (move, remaining
  depth) leaves such a table; the history entry of a key has grown by exactly the sum of
  depth squared over the cutoffs of that key, so it never decreases; and one more cutoff
  by \<open>m\<close> puts \<open>m\<close> in the first slot when \<open>m\<close> is not in the table, and leaves the
  table as it is when \<open>m\<close> is already in it.
\<close>

theorem tables_invariant:
  assumes "killer_ok (killer_moves e)"
  shows "killer_ok (killer_moves (foldl cutoff_update e cs))
     \<and> history_value (foldl cutoff_update e cs) k
         = history_value e k + (\<Sum>c \<leftarrow> cs. cutoff_bonus k c)
     \<and> history_value e k \<le> history_value (foldl cutoff_update e cs) k
     \<and> (if Some m \<in> set (killer_moves e)
        then killer_moves (cutoff_update e (m, d)) = killer_moves e
        else hd (killer_moves (cutoff_update e (m, d))) = Some m)"
proof -
  have 1: "killer_ok (killer_moves (foldl cutoff_update e cs))"
    using assms by (rule cutoffs_killer_ok)
  have 2: "if Some m \<in> set (killer_moves e)
        then killer_moves (cutoff_update e (m, d)) = killer_moves e
        else hd (killer_moves (cutoff_update e (m, d))) = Some m"
    by (simp add: cutoff_update_killer update_killer_new update_killer_old)
  show ?thesis using 1 2 cutoffs_history cutoffs_history_mono by blast
qed

theorem tables_invariant_witness:
  "killer_ok (killer_moves (init_engine empty_board))
   \<and> killer_moves (foldl cutoff_update (init_engine empty_board)
        [(mv 12 28, 3), (mv 6 21, 2), (mv 12 28, 1)]) = [Some (mv 6 21), Some (mv 12 28)]
   \<and> history_value (foldl cutoff_update (init_engine empty_board)
        [(mv 12 28, 3), (mv 6 21, 2), (mv 12 28, 1)]) (12, 28) = 10"
  using tables_invariant [of "init_engine empty_board"
      "[(mv 12 28, 3), (mv 6 21, 2), (mv 12 28, 1)]" "(12, 28)" "mv 12 28" 1]
  by (simp add: killer_ok_def init_engine_def cutoff_update_def update_killer_def
      update_history_def mv_def Let_def history_value_def cutoff_bonus_def)

text \<open>
  C8 as stated fails in its parenthesis: after cutoffs by e2e4, g1f3 and e2e4 again the
  most recent cutoff move e2e4 is in the second slot, not the first.
\<close>

theorem killer_recency_counterexample:
  "killer_moves (foldl cutoff_update (init_engine empty_board)
      [(mv 12 28, 3), (mv 6 21, 2), (mv 12 28, 1)]) = [Some (mv 6 21), Some (mv 12 28)]
   \<and> hd (killer_moves (foldl cutoff_update (init_engine empty_board)
      [(mv 12 28, 3), (mv 6 21, 2), (mv 12 28, 1)])) \<noteq> Some (mv 12 28)"
  by (simp add: cutoff_update_def update_killer_def update_history_def init_engine_def
      mv_def Let_def)

section \<open>Quiescence search stays inside its window\<close>





section \<open>What the evaluation does to the position\<close>

lemma evaluate_mobility_turn: "turn (snd (evaluate_mobility R p)) = WHITE"
  by (simp add: evaluate_mobility_def Let_def)

lemma evaluate_board_turn:
  assumes "\<not> is_checkmate R p" "\<not> is_stalemate R p" "\<not> is_insufficient_material R p"
  shows "turn (snd (evaluate_board R p)) = WHITE"
proof -
  obtain m p' where mp: "evaluate_mobility R p = (m, p')" by (cases "evaluate_mobility R p")
  then have "turn p' = WHITE" using evaluate_mobility_turn [of R p] by simp
  then show ?thesis using assms mp by (simp add: evaluate_board_def Let_def)
qed

text \<open>
  C3 asks that the evaluation leaves the position as it was. With Black to move in
  \<open>4k3/8/8/8/8/8/4P3/4K3 b\<close> the evaluation returns 95 and leaves White to move:
  \<open>_evaluate_mobility\<close> ends with \<open>board.turn = chess.WHITE\<close> whatever the turn was.
\<close>

theorem evaluate_board_changes_turn:
  "turn (pos kpk_board) = BLACK
   \<and> evaluate_board (table_rules kpk_table) (pos kpk_board)
       = (95, (pos kpk_board)\<lparr>turn := WHITE\<rparr>)
   \<and> pos (board (snd (engine_evaluate_board (table_rules kpk_table) BLACK
           (init_engine kpk_board))))
       \<noteq> pos (board (init_engine kpk_board))"
proof -
  have 1: "turn (pos kpk_board) = BLACK" by (simp add: kpk_board_def start_board_def)
  have 2: "evaluate_board (table_rules kpk_table) (pos kpk_board)
       = (95, (pos kpk_board)\<lparr>turn := WHITE\<rparr>)"
    by code_simp
  have "pos (board (snd (engine_evaluate_board (table_rules kpk_table) BLACK
            (init_engine kpk_board))))
      = (pos kpk_board)\<lparr>turn := WHITE\<rparr>"
    using 2 by (simp add: engine_evaluate_board_def init_engine_def)
  then show ?thesis using 1 2 by (simp add: init_engine_def kpk_board_def start_board_def)
qed

section \<open>King safety\<close>

lemma king_safety_no_check_term:
  assumes "king p WHITE = Some w" "w \<noteq> 0" "king p BLACK = Some b" "b \<noteq> 0"
  shows "evaluate_king_safety R p
     = (if w \<in> {G1, C1} then 20 else 0) - (if b \<in> {G8, C8} then 20 else 0)"
  using assms by (simp add: evaluate_king_safety_def Let_def)

text \<open>
  C4 asks for 10 centipawns against the side in check. In \<open>4r2k/8/8/8/8/8/8/4K3 w\<close>
  White is in check and the king-safety term is 0: both blocks of
  \<open>_evaluate_king_safety\<close> test \<open>board.is_check()\<close>, so the 10 subtracted for White is
  added back for Black.
\<close>

theorem king_safety_in_check:
  "is_check (table_rules check_table) (pos check_board)
   \<and> turn (pos check_board) = WHITE
   \<and> evaluate_king_safety (table_rules check_table) (pos check_board) = 0"
  by code_simp



section \<open>What a search leaves behind\<close>

lemma cutoffs_same_tables:
  assumes "killer_moves a = killer_moves b" "history_table a = history_table b"
  shows "killer_moves (foldl cutoff_update a cs) = killer_moves (foldl cutoff_update b cs)
     \<and> history_table (foldl cutoff_update a cs) = history_table (foldl cutoff_update b cs)"
  using assms
proof (induction cs arbitrary: a b)
  case Nil
  then show ?case by simp
next
  case (Cons c cs)
  have "killer_moves (cutoff_update a c) = killer_moves (cutoff_update b c)"
      "history_table (cutoff_update a c) = history_table (cutoff_update b c)"
    using Cons.prems by (simp_all add: cutoff_update_def update_killer_def update_history_def Let_def)
  from Cons.IH [OF this] show ?case by simp
qed

lemma grows_I:
  assumes "nodes_searched e \<le> nodes_searched e'" "transposition_table e' = transposition_table e"
      "killer_moves e' = killer_moves (foldl cutoff_update e cs)"
      "history_table e' = history_table (foldl cutoff_update e cs)"
  shows "grows e e'"
proof -
  have "history_value e' k = history_value (foldl cutoff_update e cs) k" for k
    using assms(4) by (simp add: history_value_def)
  then have "history_value e k \<le> history_value e' k" for k
    by (simp add: cutoffs_history_mono)
  moreover have "killer_ok (killer_moves e) \<longrightarrow> killer_ok (killer_moves e')"
    using assms(3) by (simp add: cutoffs_killer_ok)
  ultimately show ?thesis using assms unfolding grows_def by blast
qed

lemma grows_refl [simp]: "grows e e"
  by (rule grows_I [where cs = "[]"]) simp_all

lemma grows_trans:
  assumes "grows a b" "grows b c"
  shows "grows a c"
proof -
  obtain cs where cs: "killer_moves b = killer_moves (foldl cutoff_update a cs)"
      "history_table b = history_table (foldl cutoff_update a cs)"
    using assms(1) unfolding grows_def by blast
  obtain ds where ds: "killer_moves c = killer_moves (foldl cutoff_update b ds)"
      "history_table c = history_table (foldl cutoff_update b ds)"
    using assms(2) unfolding grows_def by blast
  have "killer_moves c = killer_moves (foldl cutoff_update a (cs @ ds))"
      "history_table c = history_table (foldl cutoff_update a (cs @ ds))"
    using ds cutoffs_same_tables [OF cs, of ds] by simp_all
  moreover have "nodes_searched a \<le> nodes_searched c"
    using assms unfolding grows_def by (meson order_trans)
  moreover have "transposition_table c = transposition_table a"
    using assms unfolding grows_def by simp
  ultimately show ?thesis by (intro grows_I [where cs = "cs @ ds"])
qed

lemma grows_board [simp]: "grows (e\<lparr>board := b\<rparr>) e' = grows e e'"
  "grows e (e'\<lparr>board := b\<rparr>) = grows e e'"
proof -
  have "killer_moves (foldl cutoff_update (e\<lparr>board := b\<rparr>) cs)
          = killer_moves (foldl cutoff_update e cs)
      \<and> history_table (foldl cutoff_update (e\<lparr>board := b\<rparr>) cs)
          = history_table (foldl cutoff_update e cs)" for cs
    by (rule cutoffs_same_tables) simp_all
  then show "grows (e\<lparr>board := b\<rparr>) e' = grows e e'"
    by (simp add: grows_def history_value_def)
  show "grows e (e'\<lparr>board := b\<rparr>) = grows e e'"
    by (simp add: grows_def history_value_def)
qed

lemma grows_nodes: "grows e (e\<lparr>nodes_searched := Suc (nodes_searched e)\<rparr>)"
  by (rule grows_I [where cs = "[]"]) simp_all

lemma grows_cutoff: "grows e (update_history m d (update_killer m e))"
proof -
  have "nodes_searched (cutoff_update e (m, d)) = nodes_searched e"
     "transposition_table (cutoff_update e (m, d)) = transposition_table e"
    by (simp_all add: cutoff_update_def update_history_def update_killer_def Let_def)
  then have "grows e (cutoff_update e (m, d))"
    by (intro grows_I [where cs = "[(m, d)]"]) simp_all
  then show ?thesis by (simp add: cutoff_update_def)
qed

lemma grows_evaluate: "grows e (snd (engine_evaluate_board R c e))"
  by (simp add: engine_evaluate_board_def Let_def split: prod.splits)

lemma evaluate_stacks:
  "state_stack (board (snd (engine_evaluate_board R c e))) = state_stack (board e)"
  "move_stack (board (snd (engine_evaluate_board R c e))) = move_stack (board e)"
  by (simp_all add: engine_evaluate_board_def Let_def split: prod.splits)

lemma pop_push_stacks:
  assumes "state_stack (board e') = state_stack (push R m (board e))"
      "move_stack (board e') = move_stack (push R m (board e))"
  shows "pop (board e') = board e"
  using assms by (simp add: pop_def push_def)

lemma framed_I:
  "grows e e' \<Longrightarrow> (\<And>v. r = Inr v \<Longrightarrow> state_stack (board e') = state_stack (board e)
            \<and> move_stack (board e') = move_stack (board e)) \<Longrightarrow> framed e (r, e')"
  by (simp add: framed_def)

lemma q_loop_framed:
  assumes rec: "\<And>a b e. framed e (rec a b e)"
  shows "framed e (q_loop R rec alpha beta ms e)"
proof (induction ms arbitrary: alpha e)
  case Nil
  then show ?case by (simp add: framed_def)
next
  case (Cons m ms)
  show ?case
  proof (cases "\<not> is_capture R (pos (board e)) m \<or>
      (case (piece_at (pos (board e)) (to_square m), piece_at (pos (board e)) (from_square m)) of
         (Some captured, Some attacker) \<Rightarrow>
           PIECE_VALUES (piece_type captured) < PIECE_VALUES (piece_type attacker)
       | _ \<Rightarrow> False)")
    case True
    then have "q_loop R rec alpha beta (m # ms) e = q_loop R rec alpha beta ms e"
      by (auto simp: Let_def)
    then show ?thesis using Cons by simp
  next
    case False
    define e0 where "e0 = e\<lparr>board := push R m (board e)\<rparr>"
    obtain r e1 where r: "rec (neg beta) (neg alpha) e0 = (r, e1)"
      by (cases "rec (neg beta) (neg alpha) e0")
    have f1: "framed e0 (r, e1)" using rec [of e0 "neg beta" "neg alpha"] r by simp
    then have g1: "grows e e1" by (simp add: framed_def e0_def)
    show ?thesis
    proof (cases r)
      case (Inl err)
      then have "q_loop R rec alpha beta (m # ms) e = (Inl err, e1)"
        using False r by (auto simp: Let_def e0_def)
      then show ?thesis using g1 by (simp add: framed_def)
    next
      case (Inr w)
      define e2 where "e2 = e1\<lparr>board := pop (board e1)\<rparr>"
      have "pop (board e1) = board e"
        using f1 Inr by (intro pop_push_stacks) (simp_all add: framed_def e0_def)
      then have b2: "board e2 = board e" by (simp add: e2_def)
      have g2: "grows e e2" using g1 by (simp add: e2_def)
      show ?thesis
      proof (cases "beta \<le> max alpha (neg w)")
        case True
        then have "q_loop R rec alpha beta (m # ms) e = (Inr beta, e2)"
          using False r Inr by (auto simp: Let_def e0_def e2_def)
        then show ?thesis using g2 b2 by (simp add: framed_def)
      next
        case F2: False
        then have "q_loop R rec alpha beta (m # ms) e = q_loop R rec (max alpha (neg w)) beta ms e2"
          using False r Inr by (auto simp: Let_def e0_def e2_def)
        moreover have "framed e2 (q_loop R rec (max alpha (neg w)) beta ms e2)" by (rule Cons.IH)
        ultimately show ?thesis using g2 b2 by (auto simp: framed_def intro: grows_trans)
      qed
    qed
  qed
qed

lemma quiescence_framed: "framed e (quiescence R lim alpha beta e)"
proof (induction lim arbitrary: alpha beta e)
  case 0
  then show ?case by (simp add: framed_def)
next
  case (Suc lim)
  define e1 where "e1 = e\<lparr>nodes_searched := Suc (nodes_searched e)\<rparr>"
  obtain x e2 where ev: "engine_evaluate_board R BLACK e1 = (x, e2)"
    by (cases "engine_evaluate_board R BLACK e1")
  have "grows e e1" unfolding e1_def by (rule grows_nodes)
  moreover have "grows e1 e2" using grows_evaluate [of e1 R BLACK] ev by simp
  ultimately have g: "grows e e2" by (rule grows_trans)
  have st: "state_stack (board e2) = state_stack (board e)" "move_stack (board e2) = move_stack (board e)"
    using evaluate_stacks [of R BLACK e1] ev by (simp_all add: e1_def)
  have "framed e2 (q_loop R (quiescence R lim) (max alpha (Fin x)) beta
                (legal_moves R (pos (board e2))) e2)"
    by (rule q_loop_framed) (rule Suc.IH)
  then have "framed e (q_loop R (quiescence R lim) (max alpha (Fin x)) beta
                (legal_moves R (pos (board e2))) e2)"
    using g st by (auto simp: framed_def intro: grows_trans)
  moreover have "framed e (Inr beta, e2)" using g st by (simp add: framed_def)
  ultimately show ?case using ev by (simp add: Let_def e1_def [symmetric])
qed

lemma framed_grows: "framed e (r, e') \<Longrightarrow> grows e e'"
  by (simp add: framed_def)

lemma framed_push:
  assumes "framed (e\<lparr>board := push R m (board e)\<rparr>) (Inr v, e')"
  shows "pop (board e') = board e" "grows e (e'\<lparr>board := pop (board e')\<rparr>)"
proof -
  show "pop (board e') = board e"
    using assms by (intro pop_push_stacks) (simp_all add: framed_def)
  show "grows e (e'\<lparr>board := pop (board e')\<rparr>)"
    using assms by (simp add: framed_def)
qed

lemma pvs_child_framed:
  assumes rec: "\<And>c a b e. framed e (rec c a b e)"
  shows "framed e (pvs_child rec is_first cm alpha beta na nb e)"
proof (cases is_first)
  case True
  then show ?thesis using rec by (simp add: pvs_child_def)
next
  case False
  obtain r e1 where r: "rec cm na nb e = (r, e1)" by (cases "rec cm na nb e")
  have f1: "framed e (r, e1)" using rec [of e cm na nb] r by simp
  show ?thesis
  proof (cases r)
    case (Inl err)
    then show ?thesis using False r f1 by (simp add: pvs_child_def)
  next
    case (Inr v)
    show ?thesis
    proof (cases "alpha < v \<and> v < beta")
      case True
      obtain r2 e2 where r2: "rec cm alpha beta e1 = (r2, e2)" by (cases "rec cm alpha beta e1")
      have f2: "framed e1 (r2, e2)" using rec [of e1 cm alpha beta] r2 by simp
      have "framed e (r2, e2)"
        using f1 f2 Inr by (auto simp: framed_def intro: grows_trans)
      then show ?thesis using False r Inr True r2 by (simp add: pvs_child_def)
    next
      case F: False
      then show ?thesis using False r Inr f1 by (auto simp: pvs_child_def)
    qed
  qed
qed

lemma max_loop_framed:
  assumes rec: "\<And>c a b e. framed e (rec c a b e)"
  shows "framed e (max_loop R rec depth alpha beta max_eval is_first ms e)"
proof (induction ms arbitrary: alpha max_eval is_first e)
  case Nil
  then show ?case by (simp add: framed_def)
next
  case (Cons m ms)
  define e0 where "e0 = e\<lparr>board := push R m (board e)\<rparr>"
  obtain r e1 where r: "pvs_child rec is_first False alpha beta alpha (plus1 alpha) e0 = (r, e1)"
    by (cases "pvs_child rec is_first False alpha beta alpha (plus1 alpha) e0")
  have f1: "framed e0 (r, e1)"
    unfolding r [symmetric] by (rule pvs_child_framed [OF rec])
  show ?case
  proof (cases r)
    case (Inl err)
    then have "max_loop R rec depth alpha beta max_eval is_first (m # ms) e = (Inl err, e1)"
      using r by (simp add: e0_def)
    moreover have "grows e e1" using f1 by (simp add: framed_def e0_def)
    ultimately show ?thesis by (simp add: framed_def)
  next
    case (Inr v)
    define e2 where "e2 = e1\<lparr>board := pop (board e1)\<rparr>"
    have f1': "framed (e\<lparr>board := push R m (board e)\<rparr>) (Inr v, e1)"
      using f1 Inr by (simp add: e0_def)
    have b2: "board e2 = board e" using framed_push(1) [OF f1'] by (simp add: e2_def)
    have g2: "grows e e2" using framed_push(2) [OF f1'] by (simp add: e2_def)
    show ?thesis
    proof (cases "beta \<le> max alpha v")
      case True
      then have eq: "max_loop R rec depth alpha beta max_eval is_first (m # ms) e
          = (Inr (max max_eval v), update_history m depth (update_killer m e2))"
        using r Inr by (simp add: e0_def e2_def Let_def)
      have "grows e (update_history m depth (update_killer m e2))"
        using g2 grows_cutoff by (rule grows_trans)
      moreover have "board (update_history m depth (update_killer m e2)) = board e"
        using b2 by (simp add: update_history_def update_killer_def Let_def)
      ultimately show ?thesis unfolding eq by (simp add: framed_def)
    next
      case False
      then have eq: "max_loop R rec depth alpha beta max_eval is_first (m # ms) e
          = max_loop R rec depth (max alpha v) beta (max max_eval v) False ms e2"
        using r Inr by (simp add: e0_def e2_def Let_def)
      have "framed e2 (max_loop R rec depth (max alpha v) beta (max max_eval v) False ms e2)"
        by (rule Cons.IH)
      then show ?thesis unfolding eq using g2 b2 by (auto simp: framed_def intro: grows_trans)
    qed
  qed
qed

lemma min_loop_framed:
  assumes rec: "\<And>c a b e. framed e (rec c a b e)"
  shows "framed e (min_loop R rec depth alpha beta min_eval is_first ms e)"
proof (induction ms arbitrary: beta min_eval is_first e)
  case Nil
  then show ?case by (simp add: framed_def)
next
  case (Cons m ms)
  define e0 where "e0 = e\<lparr>board := push R m (board e)\<rparr>"
  obtain r e1 where r: "pvs_child rec is_first True alpha beta (minus1 beta) beta e0 = (r, e1)"
    by (cases "pvs_child rec is_first True alpha beta (minus1 beta) beta e0")
  have f1: "framed e0 (r, e1)"
    unfolding r [symmetric] by (rule pvs_child_framed [OF rec])
  show ?case
  proof (cases r)
    case (Inl err)
    then have "min_loop R rec depth alpha beta min_eval is_first (m # ms) e = (Inl err, e1)"
      using r by (simp add: e0_def)
    moreover have "grows e e1" using f1 by (simp add: framed_def e0_def)
    ultimately show ?thesis by (simp add: framed_def)
  next
    case (Inr v)
    define e2 where "e2 = e1\<lparr>board := pop (board e1)\<rparr>"
    have f1': "framed (e\<lparr>board := push R m (board e)\<rparr>) (Inr v, e1)"
      using f1 Inr by (simp add: e0_def)
    have b2: "board e2 = board e" using framed_push(1) [OF f1'] by (simp add: e2_def)
    have g2: "grows e e2" using framed_push(2) [OF f1'] by (simp add: e2_def)
    show ?thesis
    proof (cases "min beta v \<le> alpha")
      case True
      then have eq: "min_loop R rec depth alpha beta min_eval is_first (m # ms) e
          = (Inr (min min_eval v), update_history m depth (update_killer m e2))"
        using r Inr by (simp add: e0_def e2_def Let_def)
      have "grows e (update_history m depth (update_killer m e2))"
        using g2 grows_cutoff by (rule grows_trans)
      moreover have "board (update_history m depth (update_killer m e2)) = board e"
        using b2 by (simp add: update_history_def update_killer_def Let_def)
      ultimately show ?thesis unfolding eq by (simp add: framed_def)
    next
      case False
      then have eq: "min_loop R rec depth alpha beta min_eval is_first (m # ms) e
          = min_loop R rec depth alpha (min beta v) (min min_eval v) False ms e2"
        using r Inr by (simp add: e0_def e2_def Let_def)
      have "framed e2 (min_loop R rec depth alpha (min beta v) (min min_eval v) False ms e2)"
        by (rule Cons.IH)
      then show ?thesis unfolding eq using g2 b2 by (auto simp: framed_def intro: grows_trans)
    qed
  qed
qed

lemma framed_refl: "framed e (Inr v, e)"
  by (simp add: framed_def)

lemma minimax_framed: "framed e (minimax R lim depth is_max alpha beta e)"
proof (induction lim arbitrary: depth is_max alpha beta e)
  case 0
  then show ?case by (simp add: framed_def)
next
  case (Suc lim)
  define e1 where "e1 = e\<lparr>nodes_searched := nodes_searched e + 1\<rparr>"
  have g1: "grows e e1" unfolding e1_def using grows_nodes [of e] by simp
  have b1: "board e1 = board e" by (simp add: e1_def)
  have lift: "framed e x" if "framed e1 x" for x :: "score result"
    using that g1 b1 by (auto simp: framed_def intro: grows_trans)
  have ev: "framed e1 (case engine_evaluate_board R BLACK e1 of (v, e2) \<Rightarrow> (Inr (Fin v), e2))"
    using grows_evaluate [of e1 R BLACK] evaluate_stacks [of R BLACK e1]
    by (auto simp: framed_def split: prod.splits)
  have "framed e1 (minimax R (Suc lim) depth is_max alpha beta e)"
    unfolding minimax.simps Let_def e1_def [symmetric]
    using quiescence_framed [of e1 R lim alpha beta] ev
      max_loop_framed [of "minimax R lim (depth - 1)", OF Suc.IH]
      min_loop_framed [of "minimax R lim (depth - 1)", OF Suc.IH]
    by (simp add: framed_refl)
  then show ?case by (rule lift)
qed

lemma kept_step:
  assumes "grows e e2" "board e2 = board e" "kept e2 x"
  shows "kept e x"
  using assms by (auto simp: kept_def intro: grows_trans)

lemma root_loop_black_kept: "kept e (root_loop_black R lim depth alpha best ms e)"
proof (induction ms arbitrary: alpha best e)
  case Nil
  then show ?case by (simp add: kept_def)
next
  case (Cons m ms)
  define e0 where "e0 = e\<lparr>board := push R m (board e)\<rparr>"
  obtain r e1 where r: "minimax R lim (depth - 1) False alpha PosInf e0 = (r, e1)"
    by (cases "minimax R lim (depth - 1) False alpha PosInf e0")
  have f1: "framed e0 (r, e1)" unfolding r [symmetric] by (rule minimax_framed)
  show ?case
  proof (cases r)
    case (Inl err)
    then have "root_loop_black R lim depth alpha best (m # ms) e = (Inl err, e1)"
      using r by (simp add: e0_def)
    moreover have "grows e e1" using f1 by (simp add: framed_def e0_def)
    ultimately show ?thesis by (simp add: kept_def)
  next
    case (Inr v)
    define e2 where "e2 = e1\<lparr>board := pop (board e1)\<rparr>"
    have f1': "framed (e\<lparr>board := push R m (board e)\<rparr>) (Inr v, e1)"
      using f1 Inr by (simp add: e0_def)
    have b2: "board e2 = board e" using framed_push(1) [OF f1'] by (simp add: e2_def)
    have g2: "grows e e2" using framed_push(2) [OF f1'] by (simp add: e2_def)
    have eq: "root_loop_black R lim depth alpha best (m # ms) e
        = (if alpha < v then root_loop_black R lim depth v (Some m) ms e2
           else root_loop_black R lim depth alpha best ms e2)"
      using r Inr by (simp add: e0_def e2_def Let_def)
    show ?thesis unfolding eq by (auto intro: kept_step [OF g2 b2] Cons.IH)
  qed
qed

lemma root_loop_white_kept: "kept e (root_loop_white R lim depth beta best ms e)"
proof (induction ms arbitrary: beta best e)
  case Nil
  then show ?case by (simp add: kept_def)
next
  case (Cons m ms)
  define e0 where "e0 = e\<lparr>board := push R m (board e)\<rparr>"
  obtain r e1 where r: "minimax R lim (depth - 1) True NegInf beta e0 = (r, e1)"
    by (cases "minimax R lim (depth - 1) True NegInf beta e0")
  have f1: "framed e0 (r, e1)" unfolding r [symmetric] by (rule minimax_framed)
  show ?case
  proof (cases r)
    case (Inl err)
    then have "root_loop_white R lim depth beta best (m # ms) e = (Inl err, e1)"
      using r by (simp add: e0_def)
    moreover have "grows e e1" using f1 by (simp add: framed_def e0_def)
    ultimately show ?thesis by (simp add: kept_def)
  next
    case (Inr v)
    define e2 where "e2 = e1\<lparr>board := pop (board e1)\<rparr>"
    have f1': "framed (e\<lparr>board := push R m (board e)\<rparr>) (Inr v, e1)"
      using f1 Inr by (simp add: e0_def)
    have b2: "board e2 = board e" using framed_push(1) [OF f1'] by (simp add: e2_def)
    have g2: "grows e e2" using framed_push(2) [OF f1'] by (simp add: e2_def)
    have eq: "root_loop_white R lim depth beta best (m # ms) e
        = (if v < beta then root_loop_white R lim depth v (Some m) ms e2
           else root_loop_white R lim depth beta best ms e2)"
      using r Inr by (simp add: e0_def e2_def Let_def)
    show ?thesis unfolding eq by (auto intro: kept_step [OF g2 b2] Cons.IH)
  qed
qed

lemma search_root_kept: "kept e (search_root R lim depth pc e)"
  by (simp add: search_root_def root_loop_black_kept root_loop_white_kept)

lemma search_move_kept: "kept e (search_move R lim depth pc e)"
  using search_root_kept [of e R lim depth pc]
  by (auto simp: search_move_def kept_def split: prod.splits sum.splits)

lemma deepen_grows: "grows e (snd (deepen R lim pc ds best e))"
proof (induction ds arbitrary: best e)
  case Nil
  then show ?case by simp
next
  case (Cons d ds)
  obtain r e1 where r: "search_move R lim d pc e = (r, e1)" by (cases "search_move R lim d pc e")
  have g: "grows e e1" using search_move_kept [of e R lim d pc] r by (simp add: kept_def)
  show ?case
  proof (cases r)
    case (Inl err)
    then show ?thesis using r g by simp
  next
    case (Inr b)
    then show ?thesis using r g Cons.IH [of e1 b] by (auto intro: grows_trans)
  qed
qed

lemma deepen_board:
  "all_complete R lim pc ds e \<Longrightarrow> board (snd (deepen R lim pc ds best e)) = board e"
proof (induction ds arbitrary: best e)
  case Nil
  then show ?case by simp
next
  case (Cons d ds)
  obtain r e1 where r: "search_move R lim d pc e = (r, e1)" by (cases "search_move R lim d pc e")
  show ?case
  proof (cases r)
    case (Inl err)
    then show ?thesis using r Cons.prems by simp
  next
    case (Inr b)
    have "board e1 = board e" using search_move_kept [of e R lim d pc] r Inr by (simp add: kept_def)
    moreover have "all_complete R lim pc ds e1" using Cons.prems r Inr by simp
    ultimately show ?thesis using r Inr Cons.IH [of e1 b] by simp
  qed
qed

lemma get_best_move_snd:
  "snd (get_best_move R lim depth pc it e)
     = (if it then snd (deepen R lim pc [1..depth] None (e\<lparr>transposition_table := Map.empty\<rparr>))
        else snd (search_move R lim depth pc (e\<lparr>transposition_table := Map.empty\<rparr>)))"
  by (simp add: get_best_move_def Let_def split: prod.splits)

text \<open>
  Every \<open>push\<close> of the search is followed by a \<open>pop\<close> on the paths that return,
  cutoffs included (the lemmas above: a call that returns leaves both stacks as they
  were). So when no search of a request raises, the board after the request is the
  board before it.
\<close>

theorem completed_request_restores_board:
  assumes "request_completes R lim depth player_color iterative_deepening e"
  shows "board (snd (get_best_move R lim depth player_color iterative_deepening e)) = board e"
proof (cases iterative_deepening)
  case True
  then have "all_complete R lim player_color [1..depth] (e\<lparr>transposition_table := Map.empty\<rparr>)"
    using assms by (simp add: request_completes_def)
  from deepen_board [OF this, of None] show ?thesis
    using True by (simp add: get_best_move_snd)
next
  case False
  define e1 where "e1 = e\<lparr>transposition_table := Map.empty\<rparr>"
  obtain r e2 where r: "search_move R lim depth player_color e1 = (r, e2)"
    by (cases "search_move R lim depth player_color e1")
  then obtain b where "r = Inr b"
    using assms False by (auto simp: request_completes_def e1_def split: sum.splits)
  then have "board e2 = board e1"
    using search_move_kept [of e1 R lim depth player_color] r by (simp add: kept_def)
  then show ?thesis using False r by (simp add: get_best_move_snd e1_def)
qed

theorem completed_request_restores_board_witness:
  "request_completes (table_rules krk_table) 2 1 WHITE True (init_engine krk_board)
   \<and> board (snd (get_best_move (table_rules krk_table) 2 1 WHITE True (init_engine krk_board)))
       = krk_board"
proof -
  have rc: "request_completes (table_rules krk_table) 2 1 WHITE True (init_engine krk_board)"
    by code_simp
  show ?thesis
    using completed_request_restores_board [OF rc] rc by (simp add: init_engine_def)
qed

text \<open>
  C7: after a request returns, the caller's position is what it was before the request.
  The code misses this when a search raises and the driver of iterative deepening
  catches the exception: the exception leaves its recursive calls between \<open>push\<close> and
  \<open>pop\<close>, nothing unwinds the board, and the driver returns normally. With two frames
  of recursion left, the depth-1 search of \<open>6r1/8/8/8/8/5k2/8/7K w\<close> completes and the
  depth-2 search raises RecursionError; the request returns Kh2 and leaves the moves Kh2
  and Ke4 on the board.
\<close>

theorem caught_failure_leaves_moves_on_board:
  "fst (get_best_move (table_rules krk_table) 2 2 WHITE True (init_engine krk_board))
     = Inr (Some (mv 7 15))
   \<and> move_stack (board (snd (get_best_move (table_rules krk_table) 2 2 WHITE True
        (init_engine krk_board)))) = [mv 21 28, mv 7 15]
   \<and> board (snd (get_best_move (table_rules krk_table) 2 2 WHITE True (init_engine krk_board)))
     \<noteq> krk_board"
proof -
  have "map_prod id (\<lambda>e. move_stack (board e))
          (get_best_move (table_rules krk_table) 2 2 WHITE True (init_engine krk_board))
      = (Inr (Some (mv 7 15)), [mv 21 28, mv 7 15])"
    by code_simp
  then have "fst (get_best_move (table_rules krk_table) 2 2 WHITE True (init_engine krk_board))
       = Inr (Some (mv 7 15))
     \<and> move_stack (board (snd (get_best_move (table_rules krk_table) 2 2 WHITE True
        (init_engine krk_board)))) = [mv 21 28, mv 7 15]"
    by (cases "get_best_move (table_rules krk_table) 2 2 WHITE True (init_engine krk_board)") simp
  moreover have "move_stack krk_board = []" by (simp add: krk_board_def start_board_def)
  ultimately show ?thesis by auto
qed

section \<open>What a request resets\<close>

text \<open>
  C2, as the code has it. \<open>get_best_move\<close> clears the transposition table and nothing
  else. The request is the deepening loop (or, without iterative deepening, the one
  search) run on the caller's engine with only the transposition table emptied, so the
  first search orders its moves by the killer table and the history table the caller
  left and counts on from the caller's node counter. After the request the killer table
  and the history table are the caller's tables after a sequence \<open>cs\<close> of cutoff
  updates (the cutoffs of the request's searches; none when nothing is cut off), the
  node counter and every history entry are at least what they were, a killer table
  within its bounds is still within them, and the transposition table is empty.
\<close>

theorem request_keeps_tables:
  "get_best_move R lim depth player_color it e
     = (if it
        then (Inr (fst (deepen R lim player_color [1..depth] None
                      (e\<lparr>transposition_table := Map.empty\<rparr>))),
              snd (deepen R lim player_color [1..depth] None
                      (e\<lparr>transposition_table := Map.empty\<rparr>)))
        else search_move R lim depth player_color (e\<lparr>transposition_table := Map.empty\<rparr>))
   \<and> (\<exists>cs. killer_moves (snd (get_best_move R lim depth player_color it e))
               = killer_moves (foldl cutoff_update e cs)
           \<and> history_table (snd (get_best_move R lim depth player_color it e))
               = history_table (foldl cutoff_update e cs))
   \<and> nodes_searched e \<le> nodes_searched (snd (get_best_move R lim depth player_color it e))
   \<and> history_value e k \<le> history_value (snd (get_best_move R lim depth player_color it e)) k
   \<and> transposition_table (snd (get_best_move R lim depth player_color it e)) = Map.empty
   \<and> (killer_ok (killer_moves e) \<longrightarrow>
        killer_ok (killer_moves (snd (get_best_move R lim depth player_color it e))))"
proof -
  define e1 where "e1 = e\<lparr>transposition_table := Map.empty\<rparr>"
  define e2 where "e2 = snd (get_best_move R lim depth player_color it e)"
  have 0: "get_best_move R lim depth player_color it e
     = (if it
        then (Inr (fst (deepen R lim player_color [1..depth] None e1)),
              snd (deepen R lim player_color [1..depth] None e1))
        else search_move R lim depth player_color e1)"
    by (simp add: get_best_move_def Let_def e1_def split: prod.splits)
  have "grows e1 e2"
  proof (cases it)
    case True
    then have "e2 = snd (deepen R lim player_color [1..depth] None e1)"
      by (simp add: e2_def get_best_move_snd e1_def)
    then show ?thesis by (simp add: deepen_grows)
  next
    case False
    then have "e2 = snd (search_move R lim depth player_color e1)"
      by (simp add: e2_def get_best_move_snd e1_def)
    then show ?thesis using search_move_kept [of e1] by (simp add: kept_def)
  qed
  then have g: "nodes_searched e1 \<le> nodes_searched e2" "history_value e1 k \<le> history_value e2 k"
      "transposition_table e2 = transposition_table e1"
      "killer_ok (killer_moves e1) \<longrightarrow> killer_ok (killer_moves e2)"
      "\<exists>cs. killer_moves e2 = killer_moves (foldl cutoff_update e1 cs)
           \<and> history_table e2 = history_table (foldl cutoff_update e1 cs)"
    unfolding grows_def by blast+
  have same: "killer_moves (foldl cutoff_update e1 cs) = killer_moves (foldl cutoff_update e cs)
      \<and> history_table (foldl cutoff_update e1 cs) = history_table (foldl cutoff_update e cs)" for cs
    by (rule cutoffs_same_tables) (simp_all add: e1_def)
  have 1: "\<exists>cs. killer_moves e2 = killer_moves (foldl cutoff_update e cs)
           \<and> history_table e2 = history_table (foldl cutoff_update e cs)"
    using g(5) same by simp
  have "history_value e1 k = history_value e k" by (simp add: e1_def history_value_def)
  then have 2: "nodes_searched e \<le> nodes_searched e2 \<and> history_value e k \<le> history_value e2 k
      \<and> transposition_table e2 = Map.empty
      \<and> (killer_ok (killer_moves e) \<longrightarrow> killer_ok (killer_moves e2))"
    using g(1-4) by (simp add: e1_def)
  show ?thesis using 0 1 2 unfolding e2_def [symmetric] e1_def [symmetric] by blast
qed

theorem request_keeps_tables_witness:
  "killer_ok (killer_moves (used_engine kk_board))
   \<and> fst (get_best_move (table_rules kk_table) 10 1 BLACK True (used_engine kk_board))
       = Inr (Some (mv 63 54))
   \<and> fst (search_move (table_rules kk_table) 10 1 BLACK
              ((used_engine kk_board)\<lparr>transposition_table := Map.empty\<rparr>))
       = Inr (Some (mv 63 54))
   \<and> 7 \<le> nodes_searched (snd (get_best_move (table_rules kk_table) 10 1 BLACK True
         (used_engine kk_board)))
   \<and> killer_ok (killer_moves (snd (get_best_move (table_rules kk_table) 10 1 BLACK True
         (used_engine kk_board))))"
proof -
  have k: "killer_ok (killer_moves (used_engine kk_board))"
    by (simp add: used_engine_def init_engine_def killer_ok_def mv_def)
  have n: "nodes_searched (used_engine kk_board) = 7"
    by (simp add: used_engine_def init_engine_def)
  have s: "fst (search_move (table_rules kk_table) 10 1 BLACK
              ((used_engine kk_board)\<lparr>transposition_table := Map.empty\<rparr>))
       = Inr (Some (mv 63 54))"
    by code_simp
  have d: "[1..1] = [1::int]" by (simp add: upto_rec1)
  note t = request_keeps_tables [of "table_rules kk_table" 10 1 BLACK True
      "used_engine kk_board" "(63, 54)"]
  have "fst (get_best_move (table_rules kk_table) 10 1 BLACK True (used_engine kk_board))
       = Inr (Some (mv 63 54))"
    using s t [THEN conjunct1] d
    by (cases "search_move (table_rules kk_table) 10 1 BLACK
              ((used_engine kk_board)\<lparr>transposition_table := Map.empty\<rparr>)")
       (auto split: sum.splits)
  moreover have "7 \<le> nodes_searched (snd (get_best_move (table_rules kk_table) 10 1 BLACK True
         (used_engine kk_board)))"
    using t [THEN conjunct2, THEN conjunct2, THEN conjunct1] n by simp
  moreover have "killer_ok (killer_moves (snd (get_best_move (table_rules kk_table) 10 1 BLACK
         True (used_engine kk_board))))"
    using t [THEN conjunct2, THEN conjunct2, THEN conjunct2, THEN conjunct2, THEN conjunct2] k
    by simp
  ultimately show ?thesis using k s by simp
qed

text \<open>
  C2 as stated fails: from an engine that has counted seven nodes and holds a killer
  move, a depth-1 request on \<open>7k/8/8/8/8/8/8/K7 b\<close> ends with thirteen nodes counted
  and the killer move still in its slot; the same request from a fresh engine counts
  six.
\<close>

theorem request_does_not_reset_counterexample:
  "nodes_searched (snd (get_best_move (table_rules kk_table) 10 1 BLACK True
       (used_engine kk_board))) = 13
   \<and> killer_moves (snd (get_best_move (table_rules kk_table) 10 1 BLACK True
       (used_engine kk_board))) = [Some (mv 63 54), None]
   \<and> nodes_searched (snd (get_best_move (table_rules kk_table) 10 1 BLACK True
       (init_engine kk_board))) = 6"
  by code_simp


section \<open>A failing iteration\<close>

lemma deepen_append:
  "all_complete R lim pc ds e \<Longrightarrow>
   deepen R lim pc (ds @ ds') best e
     = deepen R lim pc ds' (fst (deepen R lim pc ds best e)) (snd (deepen R lim pc ds best e))"
proof (induction ds arbitrary: best e)
  case Nil
  then show ?case by simp
next
  case (Cons d ds)
  then show ?case by (cases "search_move R lim d pc e") (auto split: sum.splits)
qed

lemma all_complete_append:
  "all_complete R lim pc (ds @ ds') e
     = (all_complete R lim pc ds e \<and> all_complete R lim pc ds' (snd (deepen R lim pc ds best e)))"
proof (induction ds arbitrary: best e)
  case Nil
  then show ?case by simp
next
  case (Cons d ds)
  show ?case
  proof (cases "search_move R lim d pc e")
    case (Pair r e1)
    then show ?thesis using Cons.IH by (cases r) auto
  qed
qed

lemma deepen_fail:
  "fst (search_move R lim k pc e) = Inl err \<Longrightarrow>
   deepen R lim pc (k # ds) best e = (best, snd (search_move R lim k pc e))"
  by (cases "search_move R lim k pc e") auto

lemma deepen_last:
  assumes "all_complete R lim pc (ds @ [d]) e"
  shows "fst (search_move R lim d pc (snd (deepen R lim pc ds best e)))
     = Inr (fst (deepen R lim pc (ds @ [d]) best e))"
proof -
  have a: "all_complete R lim pc ds e"
    and b: "all_complete R lim pc [d] (snd (deepen R lim pc ds best e))"
    using assms all_complete_append [of R lim pc ds "[d]" e best] by simp_all
  show ?thesis
    using b unfolding deepen_append [OF a]
    by (cases "search_move R lim d pc (snd (deepen R lim pc ds best e))") (auto split: sum.splits)
qed

lemma upto_split_at:
  assumes "1 \<le> k" "k \<le> d"
  shows "[1..d] = [1..k - 1] @ k # [k + 1..d]"
proof -
  have "[1..d] = [1..k - 1] @ [k..d]" using assms by (rule upto_split1)
  also have "[k..d] = k # [k + 1..d]" using assms(2) by (rule upto_rec1)
  finally show ?thesis .
qed

lemma upto_last: "1 < k \<Longrightarrow> [1..k - 1] = [1..k - 2] @ [k - 1]"
  using upto_rec2 [of 1 "k - 1"] by simp

text \<open>
  C9. With iterative deepening, let the searches at depths 1 to k - 1 complete and the
  search at depth k (at most the requested depth) raise. Then \<open>get_best_move\<close> returns
  normally, and what it returns is the move the loop held after depth k - 1: no move
  when k = 1, and otherwise exactly what the search at depth k - 1 returned.
\<close>

theorem driver_keeps_last_completed_move:
  assumes "1 \<le> k" and "k \<le> depth"
    and "all_complete R lim pc [1..k - 1] (e\<lparr>transposition_table := Map.empty\<rparr>)"
    and "fst (search_move R lim k pc
           (snd (deepen R lim pc [1..k - 1] None (e\<lparr>transposition_table := Map.empty\<rparr>))))
         = Inl err"
  shows "fst (get_best_move R lim depth pc True e)
       = Inr (fst (deepen R lim pc [1..k - 1] None (e\<lparr>transposition_table := Map.empty\<rparr>)))
     \<and> (k = 1 \<longrightarrow> fst (get_best_move R lim depth pc True e) = Inr None)
     \<and> (1 < k \<longrightarrow> fst (get_best_move R lim depth pc True e)
           = fst (search_move R lim (k - 1) pc
                (snd (deepen R lim pc [1..k - 2] None (e\<lparr>transposition_table := Map.empty\<rparr>)))))"
proof -
  define e1 where "e1 = e\<lparr>transposition_table := Map.empty\<rparr>"
  define D where "D = deepen R lim pc [1..k - 1] None e1"
  have ac: "all_complete R lim pc [1..k - 1] e1" using assms(3) by (simp only: e1_def)
  have fl: "fst (search_move R lim k pc (snd D)) = Inl err"
    using assms(4) by (simp only: e1_def D_def)
  have sp: "[1..depth] = [1..k - 1] @ k # [k + 1..depth]"
    using assms(1,2) by (rule upto_split_at)
  have "deepen R lim pc [1..depth] None e1
      = deepen R lim pc (k # [k + 1..depth]) (fst D) (snd D)"
    unfolding sp D_def using ac by (rule deepen_append)
  also have "\<dots> = (fst D, snd (search_move R lim k pc (snd D)))"
    using fl by (rule deepen_fail)
  finally have dd: "deepen R lim pc [1..depth] None e1
      = (fst D, snd (search_move R lim k pc (snd D)))" .
  have 1: "fst (get_best_move R lim depth pc True e) = Inr (fst D)"
    unfolding get_best_move_def Let_def e1_def [symmetric] dd by simp
  have 2: "k = 1 \<Longrightarrow> fst D = None" by (simp add: D_def)
  have 3: "fst (search_move R lim (k - 1) pc (snd (deepen R lim pc [1..k - 2] None e1)))
      = Inr (fst D)" if "1 < k"
  proof -
    have ac': "all_complete R lim pc ([1..k - 2] @ [k - 1]) e1"
      using ac upto_last [OF that] by simp
    show ?thesis
      using deepen_last [OF ac', of None] upto_last [OF that] by (simp add: D_def)
  qed
  show ?thesis using 1 2 3 unfolding e1_def D_def by simp
qed

theorem driver_keeps_last_completed_move_witness:
  "(1::int) \<le> 2 \<and> (2::int) \<le> 5
   \<and> all_complete (table_rules krk_table) 2 WHITE [1..2 - 1]
      ((init_engine krk_board)\<lparr>transposition_table := Map.empty\<rparr>)
   \<and> fst (search_move (table_rules krk_table) 2 2 WHITE
        (snd (deepen (table_rules krk_table) 2 WHITE [1..2 - 1] None
           ((init_engine krk_board)\<lparr>transposition_table := Map.empty\<rparr>)))) = Inl RecursionError
   \<and> fst (get_best_move (table_rules krk_table) 2 5 WHITE True (init_engine krk_board))
       = Inr (Some (mv 7 15))"
proof -
  have a: "all_complete (table_rules krk_table) 2 WHITE [1..2 - 1]
      ((init_engine krk_board)\<lparr>transposition_table := Map.empty\<rparr>)"
    by code_simp
  have b: "fst (search_move (table_rules krk_table) 2 2 WHITE
        (snd (deepen (table_rules krk_table) 2 WHITE [1..2 - 1] None
           ((init_engine krk_board)\<lparr>transposition_table := Map.empty\<rparr>)))) = Inl RecursionError"
    by code_simp
  have c: "fst (deepen (table_rules krk_table) 2 WHITE [1..2 - 1] None
           ((init_engine krk_board)\<lparr>transposition_table := Map.empty\<rparr>)) = Some (mv 7 15)"
    by code_simp
  have l1: "(1::int) \<le> 2" and l2: "(2::int) \<le> 5" by simp_all
  have "fst (get_best_move (table_rules krk_table) 2 5 WHITE True (init_engine krk_board))
       = Inr (fst (deepen (table_rules krk_table) 2 WHITE [1..2 - 1] None
           ((init_engine krk_board)\<lparr>transposition_table := Map.empty\<rparr>)))"
    using driver_keeps_last_completed_move [OF l1 l2 a b] by (rule conjunct1)
  then have "fst (get_best_move (table_rules krk_table) 2 5 WHITE True (init_engine krk_board))
       = Inr (Some (mv 7 15))"
    unfolding c .
  then show ?thesis using a b l1 l2 by blast
qed

section \<open>Quiescence search returns\<close>

lemma evaluate_board_piece_map: "piece_map (snd (evaluate_board R p)) = piece_map p"
  by (simp add: evaluate_board_def evaluate_mobility_def Let_def)

lemma piece_count_cong: "piece_map p = piece_map q \<Longrightarrow> piece_count p = piece_count q"
  by (simp add: piece_count_def piece_at_def)

lemma engine_evaluate_piece_count:
  "piece_count (pos (board (snd (engine_evaluate_board R c e)))) = piece_count (pos (board e))"
proof (rule piece_count_cong)
  obtain x p' where ev: "evaluate_board R (pos (board e)) = (x, p')"
    by (cases "evaluate_board R (pos (board e))")
  then have "piece_map p' = piece_map (pos (board e))"
    using evaluate_board_piece_map [of R "pos (board e)"] by simp
  then show "piece_map (pos (board (snd (engine_evaluate_board R c e)))) = piece_map (pos (board e))"
    using ev by (simp add: engine_evaluate_board_def Let_def)
qed

lemma q_loop_returns:
  assumes rec_fr: "\<And>a b e0. framed e0 (rec a b e0)"
    and rec_ok: "\<And>a b e0. piece_count (pos (board e0)) < n \<Longrightarrow> \<exists>v e'. rec a b e0 = (Inr v, e')"
    and capt: "\<forall>p m. m \<in> set (legal_moves R p) \<and> is_capture R p m
                 \<longrightarrow> piece_count (apply_move R p m) < piece_count p"
    and le: "piece_count (pos (board e)) \<le> n"
    and sub: "set ms \<subseteq> set (legal_moves R (pos (board e)))"
  shows "\<exists>v e'. q_loop R rec alpha beta ms e = (Inr v, e')"
  using sub le
proof (induction ms arbitrary: alpha e)
  case Nil
  then show ?case by simp
next
  case (Cons m ms)
  have sub': "set ms \<subseteq> set (legal_moves R (pos (board e)))" using Cons.prems(1) by simp
  show ?case
  proof (cases "\<not> is_capture R (pos (board e)) m \<or>
      (case (piece_at (pos (board e)) (to_square m), piece_at (pos (board e)) (from_square m)) of
         (Some captured, Some attacker) \<Rightarrow>
           PIECE_VALUES (piece_type captured) < PIECE_VALUES (piece_type attacker)
       | _ \<Rightarrow> False)")
    case True
    then have "q_loop R rec alpha beta (m # ms) e = q_loop R rec alpha beta ms e"
      by (auto simp: Let_def)
    then show ?thesis using Cons.IH [OF sub' Cons.prems(2)] by simp
  next
    case False
    then have cap: "is_capture R (pos (board e)) m" by simp
    define e0 where "e0 = e\<lparr>board := push R m (board e)\<rparr>"
    have "m \<in> set (legal_moves R (pos (board e)))" using Cons.prems(1) by simp
    then have "piece_count (apply_move R (pos (board e)) m) < piece_count (pos (board e))"
      using capt cap by blast
    then have "piece_count (pos (board e0)) < n"
      using Cons.prems(2) by (simp add: e0_def push_def)
    then obtain w e1 where r: "rec (neg beta) (neg alpha) e0 = (Inr w, e1)"
      using rec_ok by blast
    have f1: "framed (e\<lparr>board := push R m (board e)\<rparr>) (Inr w, e1)"
      using rec_fr [of e0 "neg beta" "neg alpha"] r by (simp add: e0_def)
    define e2 where "e2 = e1\<lparr>board := pop (board e1)\<rparr>"
    have b2: "board e2 = board e" using framed_push(1) [OF f1] by (simp add: e2_def)
    show ?thesis
    proof (cases "beta \<le> max alpha (neg w)")
      case True
      then have "q_loop R rec alpha beta (m # ms) e = (Inr beta, e2)"
        using False r by (auto simp: Let_def e0_def e2_def)
      then show ?thesis by simp
    next
      case F2: False
      then have "q_loop R rec alpha beta (m # ms) e = q_loop R rec (max alpha (neg w)) beta ms e2"
        using False r by (auto simp: Let_def e0_def e2_def)
      moreover have "\<exists>v e'. q_loop R rec (max alpha (neg w)) beta ms e2 = (Inr v, e')"
        using Cons.IH [of e2] sub' Cons.prems(2) b2 by simp
      ultimately show ?thesis by simp
    qed
  qed
qed

text \<open>
  C10. Let every legal capture leave fewer pieces on the board than it found (the
  library's \<open>push\<close> removes the captured piece). Then quiescence search returns a value
  from every position whenever more frames are left than there are pieces on the
  board: its recursion goes through captures only and is no deeper than the number of
  pieces.
\<close>

theorem quiescence_terminates:
  assumes "\<forall>p m. m \<in> set (legal_moves R p) \<and> is_capture R p m
                 \<longrightarrow> piece_count (apply_move R p m) < piece_count p"
    and "piece_count (pos (board e)) < lim"
  shows "\<exists>v e'. quiescence R lim alpha beta e = (Inr v, e')"
  using assms(2)
proof (induction lim arbitrary: alpha beta e)
  case 0
  then show ?case by simp
next
  case (Suc lim)
  define e1 where "e1 = e\<lparr>nodes_searched := nodes_searched e + 1\<rparr>"
  obtain x e2 where ev: "engine_evaluate_board R BLACK e1 = (x, e2)"
    by (cases "engine_evaluate_board R BLACK e1")
  have "piece_count (pos (board e2)) = piece_count (pos (board e1))"
    using engine_evaluate_piece_count [of R BLACK e1] ev by simp
  then have le: "piece_count (pos (board e2)) \<le> lim"
    using Suc.prems by (simp add: e1_def)
  have "\<exists>v e'. q_loop R (quiescence R lim) (max alpha (Fin x)) beta
                  (legal_moves R (pos (board e2))) e2 = (Inr v, e')"
    by (rule q_loop_returns [where n = lim, OF quiescence_framed Suc.IH assms(1) le]) simp_all
  then show ?case
    unfolding quiescence.simps Let_def e1_def [symmetric] ev by auto
qed

lemma piece_count_distinct:
  assumes "distinct (map fst (piece_map p))"
  shows "piece_count p = length (filter (\<lambda>s. s < 64) (map fst (piece_map p)))"
proof -
  have "piece_count p = card ({sq. map_of (piece_map p) sq \<noteq> None} \<inter> set [0..<64])"
    unfolding piece_count_def piece_at_def SQUARES_def
    by (rule distinct_length_filter) simp
  also have "{sq. map_of (piece_map p) sq \<noteq> None} \<inter> set [0..<64]
      = {s. s < 64} \<inter> set (map fst (piece_map p))"
    by (auto simp: map_of_eq_None_iff)
  also have "card \<dots> = length (filter (\<lambda>s. s < 64) (map fst (piece_map p)))"
    using distinct_length_filter [OF assms, of "\<lambda>s. s < 64"] by simp
  finally show ?thesis .
qed

lemma capture_table_captures:
  "\<forall>p m. m \<in> set (legal_moves (table_rules capture_table) p)
          \<and> is_capture (table_rules capture_table) p m
     \<longrightarrow> piece_count (apply_move (table_rules capture_table) p m) < piece_count p"
proof (intro allI impI)
  fix p m
  assume a: "m \<in> set (legal_moves (table_rules capture_table) p)
          \<and> is_capture (table_rules capture_table) p m"
  consider (white) "piece_map p = [(6, Piece KING WHITE), (15, Piece KNIGHT BLACK), (62, Piece KING BLACK)]"
      "m = mv 6 15"
    | (none) "False"
    using a
    by (auto simp: table_rules_def table_entry_def capture_table_def piece_at_def mv_def
        split: if_splits option.splits)
  then show "piece_count (apply_move (table_rules capture_table) p m) < piece_count p"
  proof cases
    case white
    have 1: "piece_count p = 3"
      by (subst piece_count_distinct) (simp_all add: white)
    have "piece_map (simple_push p m) = [(15, Piece KING WHITE), (62, Piece KING BLACK)]"
      by (simp add: simple_push_def piece_at_def white mv_def Let_def)
    then have 2: "piece_count (simple_push p m) = 2"
      by (subst piece_count_distinct) simp_all
    show ?thesis using 1 2 by (simp add: table_rules_def)
  next
    case none
    then show ?thesis ..
  qed
qed

theorem quiescence_terminates_witness:
  "piece_count (pos (board (init_engine capture_board))) < 4
   \<and> (\<exists>v e'. quiescence (table_rules capture_table) 4 NegInf PosInf (init_engine capture_board)
         = (Inr v, e'))"
proof -
  have pc: "piece_count (pos (board (init_engine capture_board))) < 4"
    by code_simp
  show ?thesis
    using quiescence_terminates [OF capture_table_captures pc, of NegInf PosInf] pc
    by blast
qed

section \<open>Mate in one\<close>

text \<open>
  C5 asks that a mate in one is found at depth 1. In \<open>5kNK/7P/5P1n/8/8/8/8/8 b\<close> Black
  mates with Nf7, and the search returns Nxg8 (which is not mate) with score 99999:
  after Nxg8 White mates with hxg8=Q, and quiescence search, which negates the score of
  a capture while the evaluation stays in Black's point of view, scores White's mate as
  a win for Black.
\<close>

theorem mate_in_one_missed:
  "is_checkmate (table_rules mate_table) (simple_push (pos mate_board) (mv 47 53))
   \<and> \<not> is_checkmate (table_rules mate_table) (simple_push (pos mate_board) (mv 47 62))
   \<and> fst (search_root (table_rules mate_table) 10 1 BLACK (init_engine mate_board))
       = Inr (Some (mv 47 62), Fin 99999)"
  by code_simp

section \<open>Pruning and the full-width search\<close>

text \<open>
  C1 asks that the root search returns the move and the score of the full-width search
  of the same tree. The code misses this at depth 2 with Black to move, in
  \<open>7k/8/7K/3p4/8/3P4/8/8 b\<close>: the full-width search scores d5d4 at 10 and Kg8 at 15 and
  chooses Kg8, the engine scores both at 10 and returns d5d4. After Kg8 and d3d4 (40)
  the reply Kg6 is probed with the null window (39, 40), and the probe's 39 lies
  inside (10, 40), so the leaf is searched again; but the probe's evaluation has left
  White to move in the leaf (C3), and the second evaluation of the same leaf gives 9
  to Black where the first gave 15, so the search of Kg8 is cut off at 10. No leaf of
  this tree has a capture, so quiescence search is the static evaluation at every leaf.
\<close>

theorem pruned_search_differs_from_full_width:
  "fst (search_root (table_rules kpkp_table) 10 2 BLACK (init_engine kpkp_board))
       = Inr (Some (mv 35 27), Fin 10)
   \<and> fst (get_best_move (table_rules kpkp_table) 10 2 BLACK False (init_engine kpkp_board))
       = Inr (Some (mv 35 27))
   \<and> fst (full_search_root (table_rules kpkp_table) 10 2 BLACK (init_engine kpkp_board))
       = Inr (Some (mv 63 62), Fin 15)
   \<and> fst (evaluate_board (table_rules kpkp_table)
          (simple_push (simple_push (pos kpkp_board) (mv 63 62)) (mv 47 46))) = - 15
   \<and> fst (evaluate_board (table_rules kpkp_table)
          (snd (evaluate_board (table_rules kpkp_table)
             (simple_push (simple_push (pos kpkp_board) (mv 63 62)) (mv 47 46))))) = - 9"
proof -
  have 1: "fst (search_root (table_rules kpkp_table) 10 2 BLACK (init_engine kpkp_board))
       = Inr (Some (mv 35 27), Fin 10)"
    by code_simp
  have "(init_engine kpkp_board)\<lparr>transposition_table := Map.empty\<rparr> = init_engine kpkp_board"
    by (simp add: init_engine_def)
  then have 2: "fst (get_best_move (table_rules kpkp_table) 10 2 BLACK False
        (init_engine kpkp_board)) = Inr (Some (mv 35 27))"
    using 1
    by (cases "search_root (table_rules kpkp_table) 10 2 BLACK (init_engine kpkp_board)")
       (simp add: get_best_move_def search_move_def final_move_def move_truthy_def mv_def)
  have 3: "fst (full_search_root (table_rules kpkp_table) 10 2 BLACK (init_engine kpkp_board))
       = Inr (Some (mv 63 62), Fin 15)"
    by code_simp
  have 4: "fst (evaluate_board (table_rules kpkp_table)
          (simple_push (simple_push (pos kpkp_board) (mv 63 62)) (mv 47 46))) = - 15
   \<and> fst (evaluate_board (table_rules kpkp_table)
          (snd (evaluate_board (table_rules kpkp_table)
             (simple_push (simple_push (pos kpkp_board) (mv 63 62)) (mv 47 46))))) = - 9"
    by code_simp
  show ?thesis using 1 2 3 4 by blast
qed

end
